theory Spec2Isabelle
  imports
    Main
    "HOL-Library.Word"
    "HOL-Library.Product_Lexorder"
    "HOL-Library.Multiset"
begin

section \<open>Values and sorted runs\<close>

text \<open>
  The sequencer of Akumuli (\<^verbatim>\<open>sequencer.cpp\<close>). Names are those of the source; a member
  written \<^verbatim>\<open>name_\<close> in the source is \<open>name\<close> here, since a constant cannot end with an
  underscore, and the member \<^verbatim>\<open>value\<close> of a \<^verbatim>\<open>TimeSeriesValue\<close> is \<open>val\<close>.
\<close>

text \<open>
  Modelled from the spec: the header that declares \<^verbatim>\<open>TimeStamp\<close>, \<^verbatim>\<open>TimeDuration\<close>,
  \<^verbatim>\<open>ParamId\<close> and \<^verbatim>\<open>EntryOffset\<close> is missing from the sources. Timestamps, durations
  and parameter ids are unsigned 64-bit integers, the payload is a page-relative offset
  (32 bits). The checkpoint id is a \<^verbatim>\<open>uint32_t\<close> in the source itself. The constant
  \<^verbatim>\<open>AKU_LIMITS_MAX_ID\<close> is declared in a missing header as well and is the parameter
  \<open>max_id\<close> of every function that reaches it.
\<close>

type_synonym TimeStamp = "64 word"
type_synonym TimeDuration = "64 word"
type_synonym ParamId = "64 word"
type_synonym EntryOffset = "32 word"

record TimeSeriesValue =
  key :: "TimeStamp \<times> ParamId"
  val :: EntryOffset

type_synonym SortedRun = "TimeSeriesValue list"

text \<open>\<^verbatim>\<open>TimeSeriesValue(ts, id, offset)\<close>\<close>

definition make_value :: "TimeStamp \<Rightarrow> ParamId \<Rightarrow> EntryOffset \<Rightarrow> TimeSeriesValue" where
  "make_value ts param offset = \<lparr>key = (ts, param), val = offset\<rparr>"

text \<open>
  \<^verbatim>\<open>operator <\<close> on values compares the keys only; the keys are tuples, compared
  lexicographically.
\<close>

definition tsv_less :: "TimeSeriesValue \<Rightarrow> TimeSeriesValue \<Rightarrow> bool" where
  "tsv_less lhs rhs = (key lhs < key rhs)"

text \<open>
  \<^verbatim>\<open>x.back() < y.back()\<close>. A run of the sequencer is never empty (\<open>back\<close> of an empty
  vector is undefined in C++; \<open>last []\<close> is an unspecified value here), see
  \<open>runs_nonempty\<close> below.
\<close>

definition top_element_less :: "SortedRun \<Rightarrow> SortedRun \<Rightarrow> bool" where
  "top_element_less x y = tsv_less (last x) (last y)"

definition top_element_more :: "SortedRun \<Rightarrow> SortedRun \<Rightarrow> bool" where
  "top_element_more x y = top_element_less y x"

subsection \<open>\<^verbatim>\<open>std::lower_bound\<close>\<close>

text \<open>
  The binary search of the C++ standard library, on positions: \<open>first\<close> is the start of
  the range still searched and \<open>len\<close> its length. The result is a position in
  \<open>0..length xs\<close>; \<open>length xs\<close> is \<^verbatim>\<open>end()\<close>.
\<close>

function lower_bound_loop ::
    "('a \<Rightarrow> 'b \<Rightarrow> bool) \<Rightarrow> 'a list \<Rightarrow> 'b \<Rightarrow> nat \<Rightarrow> nat \<Rightarrow> nat" where
  "lower_bound_loop cmp xs v first len =
     (if 0 < len then
        (let half = len div 2; middle = first + half in
         if cmp (xs ! middle) v
         then lower_bound_loop cmp xs v (middle + 1) (len - half - 1)
         else lower_bound_loop cmp xs v first half)
      else first)"
  by pat_completeness auto
termination
  by (relation "measure (\<lambda>(cmp, xs, v, first, len). len)") auto

declare lower_bound_loop.simps [simp del]

definition lower_bound :: "('a \<Rightarrow> 'b \<Rightarrow> bool) \<Rightarrow> 'a list \<Rightarrow> 'b \<Rightarrow> nat" where
  "lower_bound cmp xs v = lower_bound_loop cmp xs v 0 (length xs)"

section \<open>The sequencer\<close>

datatype aku_Status = AKU_SUCCESS | AKU_ELATE_WRITE | AKU_EBUSY | AKU_ENO_DATA

text \<open>
  What ends an operation without a result: the \<^verbatim>\<open>runtime_error\<close> thrown by the
  constructor, by \<^verbatim>\<open>make_checkpoint_\<close> and by \<^verbatim>\<open>close\<close>; the failed \<^verbatim>\<open>assert\<close> of
  \<^verbatim>\<open>search\<close>; and a \<^verbatim>\<open>search\<close> that waits for a progress flag that its own thread
  holds.
\<close>

datatype error = RuntimeError | AssertionFailed | Blocked

text \<open>
  The state of a \<^verbatim>\<open>Sequencer\<close>. \<open>progress_flag\<close> is the mutex \<^verbatim>\<open>progress_flag_\<close>: true when
  it is held. A \<^verbatim>\<open>Lock\<close> returned to the caller is the boolean \<^verbatim>\<open>owns_lock()\<close>; the
  caller releases it with \<open>release\<close>. \<open>key_run\<close> is the member \<^verbatim>\<open>key_\<close>, the one-element
  run that \<^verbatim>\<open>add\<close> hands to \<^verbatim>\<open>lower_bound\<close>. The stripe locks \<^verbatim>\<open>run_lock_flags_\<close> are
  clear between any two operations of one thread and are left out, as is the page handle.
\<close>

record Sequencer =
  window_size :: TimeDuration
  top_timestamp :: TimeStamp
  checkpoint :: "32 word"
  runs :: "SortedRun list"
  ready :: "SortedRun list"
  key_run :: SortedRun
  progress_flag :: bool

text \<open>The constructor; the default-constructed value in \<open>key_run\<close> is never read.\<close>

definition new_Sequencer :: "TimeDuration \<Rightarrow> error + Sequencer" where
  "new_Sequencer window =
     (if window \<le> 0 then Inl RuntimeError
      else Inr \<lparr>window_size = window, top_timestamp = 0, checkpoint = 0, runs = [],
                ready = [], key_run = [make_value 0 0 0], progress_flag = False\<rparr>)"

text \<open>Checkpoint id: the quotient \<^verbatim>\<open>ts.value / window_size_.value\<close>, cut to 32 bits.\<close>

definition get_checkpoint :: "Sequencer \<Rightarrow> TimeStamp \<Rightarrow> 32 word" where
  "get_checkpoint s ts = ucast (ts div window_size s)"

text \<open>\<^verbatim>\<open>cp*window_size_.value\<close>, a 64-bit product.\<close>

definition get_timestamp :: "Sequencer \<Rightarrow> 32 word \<Rightarrow> TimeStamp" where
  "get_timestamp s cp = ucast cp * window_size s"

text \<open>
  The loop of \<^verbatim>\<open>make_checkpoint_\<close> over \<^verbatim>\<open>runs_\<close>, with the two vectors it fills:
  \<^verbatim>\<open>new_runs\<close> and \<^verbatim>\<open>ready_\<close>.
\<close>

fun checkpoint_runs ::
    "TimeSeriesValue \<Rightarrow> SortedRun list \<Rightarrow> SortedRun list \<times> SortedRun list
      \<Rightarrow> SortedRun list \<times> SortedRun list" where
  "checkpoint_runs bound [] (new_runs, rdy) = (new_runs, rdy)"
| "checkpoint_runs bound (sorted_run # rest) (new_runs, rdy) =
     (let it = lower_bound tsv_less sorted_run bound in
      if it = 0 then checkpoint_runs bound rest (new_runs @ [sorted_run], rdy)
      else if it = length sorted_run
        then checkpoint_runs bound rest (new_runs, rdy @ [sorted_run])
      else checkpoint_runs bound rest
             (new_runs @ [drop it sorted_run], rdy @ [take it sorted_run]))"

text \<open>
  \<^verbatim>\<open>make_checkpoint_\<close>: the result says whether the lock was taken. When \<^verbatim>\<open>try_lock\<close>
  fails nothing changes.
\<close>

definition make_checkpoint ::
    "ParamId \<Rightarrow> 32 word \<Rightarrow> Sequencer \<Rightarrow> error + (bool \<times> Sequencer)" where
  "make_checkpoint max_id new_checkpoint s =
     (if progress_flag s then Inr (False, s)
      else
        let old_top = get_timestamp s (checkpoint s) in
        if ready s \<noteq> [] then Inl RuntimeError
        else
          (case checkpoint_runs (make_value old_top max_id 0) (runs s) ([], ready s) of
             (new_runs, rdy) \<Rightarrow>
               Inr (True, s\<lparr>progress_flag := True, checkpoint := new_checkpoint,
                            runs := new_runs, ready := rdy\<rparr>)))"

text \<open>\<^verbatim>\<open>check_timestamp_\<close>: the status, whether the lock is owned, and the state.\<close>

definition check_timestamp ::
    "ParamId \<Rightarrow> TimeStamp \<Rightarrow> Sequencer \<Rightarrow> error + (aku_Status \<times> bool \<times> Sequencer)" where
  "check_timestamp max_id ts s =
     (if ts < top_timestamp s then
        (let delta = top_timestamp s - ts in
         if delta > window_size s then Inr (AKU_ELATE_WRITE, False, s)
         else Inr (AKU_SUCCESS, False, s))
      else
        let point = get_checkpoint s ts in
        if point > checkpoint s then
          (case make_checkpoint max_id point s of
             Inl e \<Rightarrow> Inl e
           | Inr (owns_lock, s1) \<Rightarrow>
               Inr (if \<not> owns_lock then AKU_EBUSY else AKU_SUCCESS, owns_lock,
                    s1\<lparr>top_timestamp := ts\<rparr>))
        else Inr (AKU_SUCCESS, False, s\<lparr>top_timestamp := ts\<rparr>))"

text \<open>
  The second half of \<^verbatim>\<open>add\<close>, after the status check: the value replaces the element of
  \<open>key_run\<close>, \<open>lower_bound\<close> looks through \<open>runs\<close> with \<open>top_element_more\<close>, and the
  value is pushed to the run found or to a new run.
\<close>

definition insert_value :: "TimeSeriesValue \<Rightarrow> Sequencer \<Rightarrow> Sequencer" where
  "insert_value v s =
     (let s1 = s\<lparr>key_run := butlast (key_run s) @ [v]\<rparr>;
          insert_it = lower_bound top_element_more (runs s1) (key_run s1)
      in if insert_it = length (runs s1)
         then s1\<lparr>runs := runs s1 @ [[v]]\<rparr>
         else s1\<lparr>runs := (runs s1)[insert_it := (runs s1 ! insert_it) @ [v]]\<rparr>)"

text \<open>The position that \<open>insert_value\<close> gets from \<open>lower_bound\<close>.\<close>

definition insert_pos :: "TimeSeriesValue \<Rightarrow> Sequencer \<Rightarrow> nat" where
  "insert_pos v s = lower_bound top_element_more (runs s) (butlast (key_run s) @ [v])"

definition add ::
    "ParamId \<Rightarrow> TimeSeriesValue \<Rightarrow> Sequencer \<Rightarrow> error + (aku_Status \<times> bool \<times> Sequencer)" where
  "add max_id v s =
     (case check_timestamp max_id (fst (key v)) s of
        Inl e \<Rightarrow> Inl e
      | Inr (status, lock, s1) \<Rightarrow>
          if status \<noteq> AKU_SUCCESS then Inr (status, lock, s1)
          else Inr (AKU_SUCCESS, lock, insert_value v s1))"

text \<open>\<^verbatim>\<open>close\<close>: the result says whether the returned lock owns the progress flag.\<close>

definition close :: "Sequencer \<Rightarrow> error + (bool \<times> Sequencer)" where
  "close s =
     (if progress_flag s then Inr (False, s)
      else if ready s \<noteq> [] then Inl RuntimeError
      else Inr (True, s\<lparr>progress_flag := True, ready := ready s @ runs s, runs := []\<rparr>))"

text \<open>The destructor of a \<^verbatim>\<open>Lock\<close> that owns the progress flag.\<close>

definition release :: "Sequencer \<Rightarrow> Sequencer" where
  "release s = s\<lparr>progress_flag := False\<rparr>"

section \<open>The k-way merge\<close>

datatype cursor_direction = AKU_CURSOR_DIR_FORWARD | AKU_CURSOR_DIR_BACKWARD

text \<open>
  A heap item is \<^verbatim>\<open>tuple<value_t, int>\<close>: a value and the index of its run. The
  comparison of tuples is lexicographic and uses \<^verbatim>\<open>operator <\<close> of the components only.
\<close>

type_synonym HeapItem = "TimeSeriesValue \<times> nat"

definition item_less :: "HeapItem \<Rightarrow> HeapItem \<Rightarrow> bool" where
  "item_less lhs rhs =
     (tsv_less (fst lhs) (fst rhs) \<or> (\<not> tsv_less (fst rhs) (fst lhs) \<and> snd lhs < snd rhs))"

text \<open>\<^verbatim>\<open>MergePred\<close>: \<^verbatim>\<open>greater\<close> in the forward direction, \<^verbatim>\<open>less\<close> in the backward one.\<close>

fun MergePred :: "cursor_direction \<Rightarrow> HeapItem \<Rightarrow> HeapItem \<Rightarrow> bool" where
  "MergePred AKU_CURSOR_DIR_FORWARD lhs rhs = item_less rhs lhs"
| "MergePred AKU_CURSOR_DIR_BACKWARD lhs rhs = item_less lhs rhs"

text \<open>
  \<^verbatim>\<open>RunIter\<close>: the elements between \<^verbatim>\<open>begin(run)\<close> and \<^verbatim>\<open>end(run)\<close>, in the order in
  which the iterator meets them.
\<close>

fun RunIter :: "cursor_direction \<Rightarrow> SortedRun \<Rightarrow> TimeSeriesValue list" where
  "RunIter AKU_CURSOR_DIR_FORWARD run = run"
| "RunIter AKU_CURSOR_DIR_BACKWARD run = rev run"

text \<open>
  The priority queue \<^verbatim>\<open>boost::heap::skew_heap\<close> is library code; it is modelled by its
  contract, on the list of the items it holds. \<^verbatim>\<open>top\<close> is an item that no other item
  beats: \<open>cmp a b\<close> says that \<open>b\<close> goes before \<open>a\<close>. \<open>heap_top cmp x h\<close> is the top of
  the heap that holds \<open>x # h\<close>.
\<close>

definition heap_push :: "'a \<Rightarrow> 'a list \<Rightarrow> 'a list" where
  "heap_push x h = x # h"

fun heap_top :: "('a \<Rightarrow> 'a \<Rightarrow> bool) \<Rightarrow> 'a \<Rightarrow> 'a list \<Rightarrow> 'a" where
  "heap_top cmp best [] = best"
| "heap_top cmp best (y # h) = heap_top cmp (if cmp best y then y else best) h"

definition heap_pop :: "('a \<Rightarrow> 'a \<Rightarrow> bool) \<Rightarrow> 'a \<Rightarrow> 'a list \<Rightarrow> 'a list" where
  "heap_pop cmp x h = remove1 (heap_top cmp x h) (x # h)"

text \<open>
  The \<^verbatim>\<open>while\<close> loop of \<^verbatim>\<open>kway_merge\<close>. \<open>iter ! index\<close> is what is left between
  \<^verbatim>\<open>iter[index]\<close> and \<^verbatim>\<open>ends[index]\<close>. The result is the list of the items taken from the
  top of the heap, in that order. An index that is not one of a run does not occur
  (\<open>kway_wf_top\<close>); there the iterator counts as exhausted.
\<close>

function kway_loop ::
    "cursor_direction \<Rightarrow> TimeSeriesValue list list \<Rightarrow> HeapItem list \<Rightarrow> HeapItem list" where
  "kway_loop dir iter [] = []"
| "kway_loop dir iter (x # h) =
     (let item = heap_top (MergePred dir) x h;
          index = snd item;
          heap1 = heap_pop (MergePred dir) x h
      in item #
         (if index < length iter \<and> iter ! index \<noteq> []
          then kway_loop dir (iter[index := tl (iter ! index)])
                 (heap_push (hd (iter ! index), index) heap1)
          else kway_loop dir iter heap1))"
  by pat_completeness auto
termination
proof (relation "measure (\<lambda>(dir, iter, heap). sum_list (map length iter) + length heap)")
  show "wf (measure (\<lambda>(dir, iter, heap). sum_list (map length iter) + length heap))"
    by simp
next
  fix dir :: cursor_direction and iter :: "TimeSeriesValue list list"
    and x :: HeapItem and h item index heap1
  assume a: "item = heap_top (MergePred dir) x h" "index = snd item"
    "heap1 = heap_pop (MergePred dir) x h"
  have top_in: "heap_top cmp y ys \<in> set (y # ys)" for cmp :: "HeapItem \<Rightarrow> HeapItem \<Rightarrow> bool" and y ys
    by (induction ys arbitrary: y) auto
  have "length (remove1 (heap_top (MergePred dir) x h) (x # h)) = length (x # h) - 1"
    using top_in [of "MergePred dir" x h] by (simp only: length_remove1 if_True)
  then have len: "length heap1 = length h"
    using a(3) by (simp only: heap_pop_def) simp
  {
    assume b: "index < length iter \<and> iter ! index \<noteq> []"
    then have "length (iter ! index) \<le> sum_list (map length iter)"
      using elem_le_sum_list [of index "map length iter"] by simp
    with b have "sum_list (map length (iter[index := tl (iter ! index)])) + length (iter ! index)
        = sum_list (map length iter) + length (tl (iter ! index))"
      by (simp add: map_update sum_list_update)
    moreover from b have "length (tl (iter ! index)) < length (iter ! index)"
      by simp
    ultimately show "((dir, iter[index := tl (iter ! index)],
          heap_push (hd (iter ! index), index) heap1), (dir, iter, x # h))
        \<in> measure (\<lambda>(dir, iter, heap). sum_list (map length iter) + length heap)"
      using len by (simp add: heap_push_def)
  }
  show "((dir, iter, heap1), (dir, iter, x # h))
        \<in> measure (\<lambda>(dir, iter, heap). sum_list (map length iter) + length heap)"
    using len by simp
qed

declare kway_loop.simps [simp del]

text \<open>The first \<^verbatim>\<open>for\<close> loop over the indices: the head of every run that has one.\<close>

fun kway_seed_step ::
    "nat \<Rightarrow> TimeSeriesValue list list \<times> HeapItem list
      \<Rightarrow> TimeSeriesValue list list \<times> HeapItem list" where
  "kway_seed_step index (iter, heap) =
     (if iter ! index \<noteq> []
      then (iter[index := tl (iter ! index)], heap_push (hd (iter ! index), index) heap)
      else (iter, heap))"

definition kway_seed ::
    "cursor_direction \<Rightarrow> SortedRun list \<Rightarrow> TimeSeriesValue list list \<times> HeapItem list" where
  "kway_seed dir rs = fold kway_seed_step [0..<length rs] (map (RunIter dir) rs, [])"

text \<open>The items in the order in which \<^verbatim>\<open>kway_merge\<close> takes them from the heap.\<close>

definition kway_items :: "cursor_direction \<Rightarrow> SortedRun list \<Rightarrow> HeapItem list" where
  "kway_items dir rs = (case kway_seed dir rs of (iter, heap) \<Rightarrow> kway_loop dir iter heap)"

text \<open>
  \<^verbatim>\<open>kway_merge\<close>: the payloads handed to \<^verbatim>\<open>out_iter->put\<close>, one for each item taken.
\<close>

definition kway_merge :: "cursor_direction \<Rightarrow> SortedRun list \<Rightarrow> EntryOffset list" where
  "kway_merge dir rs = map (\<lambda>item. val (fst item)) (kway_items dir rs)"

section \<open>Merge and search\<close>

text \<open>What a cursor receives: \<^verbatim>\<open>put\<close>, \<^verbatim>\<open>set_error\<close> and \<^verbatim>\<open>complete\<close>.\<close>

datatype cursor_event = Put EntryOffset | SetError aku_Status | Complete

fun puts :: "cursor_event list \<Rightarrow> EntryOffset list" where
  "puts [] = []"
| "puts (Put x # es) = x # puts es"
| "puts (e # es) = puts es"

text \<open>\<^verbatim>\<open>merge\<close>, given \<^verbatim>\<open>lock.owns_lock()\<close>: the calls on the cursor and the state.\<close>

definition merge :: "bool \<Rightarrow> Sequencer \<Rightarrow> cursor_event list \<times> Sequencer" where
  "merge owns_lock s =
     (if \<not> owns_lock then ([SetError AKU_EBUSY], s)
      else if length (ready s) = 0 then ([SetError AKU_ENO_DATA], s)
      else (map Put (kway_merge AKU_CURSOR_DIR_FORWARD (ready s)) @ [Complete],
            s\<lparr>ready := []\<rparr>))"

datatype ParamMatch = MATCH | NO_MATCH

record SearchQuery =
  lowerbound :: TimeStamp
  upperbound :: TimeStamp
  param_pred :: "ParamId \<Rightarrow> ParamMatch"
  direction :: cursor_direction

definition SearchPredicate :: "SearchQuery \<Rightarrow> TimeSeriesValue \<Rightarrow> bool" where
  "SearchPredicate query v =
     (if lowerbound query < fst (key v) \<and> upperbound query > fst (key v)
      then (if param_pred query (snd (key v)) = MATCH then True else False)
      else False)"

text \<open>\<^verbatim>\<open>Sequencer::filter\<close>: \<^verbatim>\<open>copy_if\<close> into a new run, pushed to \<open>results\<close>.\<close>

definition filter_run :: "SortedRun \<Rightarrow> SearchQuery \<Rightarrow> SortedRun list \<Rightarrow> SortedRun list" where
  "filter_run run q results = results @ [filter (SearchPredicate q) run]"

text \<open>
  \<^verbatim>\<open>search\<close> takes the progress flag for its duration, so it changes no state; it waits
  for ever when the flag is held by a lock of its own thread.
\<close>

definition search :: "SearchQuery \<Rightarrow> Sequencer \<Rightarrow> error + cursor_event list" where
  "search query s =
     (if progress_flag s then Inl Blocked
      else if ready s \<noteq> [] then Inl AssertionFailed
      else
        let filtered = fold (\<lambda>run results. filter_run run query results) (runs s) [] in
        if direction query = AKU_CURSOR_DIR_FORWARD
        then Inr (map Put (kway_merge AKU_CURSOR_DIR_FORWARD filtered))
        else Inr (map Put (kway_merge AKU_CURSOR_DIR_BACKWARD filtered)))"

section \<open>A client of the sequencer\<close>

text \<open>
  One thread that calls the sequencer. It keeps the lock it was given last; \<open>OpMerge\<close>
  passes that lock to \<^verbatim>\<open>merge\<close> (it owns the progress flag exactly when the flag is
  held), \<open>OpRelease\<close> destroys it. Beside the sequencer the client records the values
  whose \<^verbatim>\<open>add\<close> returned \<^verbatim>\<open>AKU_SUCCESS\<close> and the payloads put into its cursors.
\<close>

datatype operation = OpAdd TimeSeriesValue | OpMerge | OpRelease | OpClose

record client =
  sequencer :: Sequencer
  admitted :: "TimeSeriesValue list"
  emitted :: "EntryOffset list"

fun step :: "ParamId \<Rightarrow> operation \<Rightarrow> client \<Rightarrow> error + client" where
  "step max_id (OpAdd v) c =
     (case add max_id v (sequencer c) of
        Inl e \<Rightarrow> Inl e
      | Inr (status, lock, s) \<Rightarrow>
          Inr (c\<lparr>sequencer := s,
                 admitted := (if status = AKU_SUCCESS then admitted c @ [v] else admitted c)\<rparr>))"
| "step max_id OpMerge c =
     (case merge (progress_flag (sequencer c)) (sequencer c) of
        (events, s) \<Rightarrow> Inr (c\<lparr>sequencer := s, emitted := emitted c @ puts events\<rparr>))"
| "step max_id OpRelease c = Inr (c\<lparr>sequencer := release (sequencer c)\<rparr>)"
| "step max_id OpClose c =
     (case close (sequencer c) of
        Inl e \<Rightarrow> Inl e
      | Inr (lock, s) \<Rightarrow> Inr (c\<lparr>sequencer := s\<rparr>))"

fun run_ops :: "ParamId \<Rightarrow> operation list \<Rightarrow> client \<Rightarrow> error + client" where
  "run_ops max_id [] c = Inr c"
| "run_ops max_id (x # ops) c =
     (case step max_id x c of Inl e \<Rightarrow> Inl e | Inr c1 \<Rightarrow> run_ops max_id ops c1)"

definition new_client :: "TimeDuration \<Rightarrow> error + client" where
  "new_client window =
     (case new_Sequencer window of
        Inl e \<Rightarrow> Inl e
      | Inr s \<Rightarrow> Inr \<lparr>sequencer = s, admitted = [], emitted = []\<rparr>)"

section \<open>The protocol parser\<close>

text \<open>
  Modelled from the spec: the source of \<^verbatim>\<open>ProtocolParser\<close> (\<^verbatim>\<open>protocolparser.cpp\<close> and its
  header) is not part of the sources at hand, only its test is. The definitions of this
  section follow section 4.E of the specification and the test
  \<^verbatim>\<open>test_protocolparser.cpp\<close>.

  A PDU is built by the test from a buffer, a number of bytes and a position, in this
  order, which the specification calls buffer, length and pos. The bytes that a PDU
  delivers are those of its buffer from \<open>pos\<close> up to \<open>pdu_length\<close>.
\<close>

record PDU =
  buffer :: string
  pdu_length :: nat
  pos :: nat

definition pdu_bytes :: "PDU \<Rightarrow> string" where
  "pdu_bytes pdu = drop (pos pdu) (take (pdu_length pdu) (buffer pdu))"

text \<open>
  Modelled from the spec: the states of the machine, and what the machine holds beside
  its state: the integers of the record being read, the scratch buffer of a bulk string
  and the consumer. The consumer is the sequence of the callbacks made so far, in the
  order in which they were made; the value of a \<^verbatim>\<open>write_double\<close> is given by the text of
  its token, of which the double is a function.
\<close>

datatype parser_state =
  ExpectType | ReadInt | ReadFloat | ReadBulkLen | ReadBulkBody nat | ParseError

datatype token = Integer "64 word"

datatype callback = write_double ParamId TimeStamp string | add_bulk_string string nat

record parser_machine =
  state :: parser_state
  tokens :: "token list"
  scratch :: string
  consumer :: "callback list"

definition CR :: char where "CR = CHR 0x0D"
definition LF :: char where "LF = CHR 0x0A"

definition is_digit :: "char \<Rightarrow> bool" where
  "is_digit c = (c \<in> set ''0123456789'')"

definition is_digits :: "string \<Rightarrow> bool" where
  "is_digits s = (s \<noteq> [] \<and> list_all is_digit s)"

definition digits_value :: "string \<Rightarrow> nat" where
  "digits_value ds = foldl (\<lambda>n c. 10 * n + (of_char c - 48)) 0 ds"

text \<open>
  Modelled from the spec: the body of a float is a number, with an optional sign, a
  decimal point allowed and no exponent required: digits with at most one point and at
  least one digit, then possibly an exponent, which is a mark, an optional sign and
  digits.
\<close>

fun strip_sign :: "string \<Rightarrow> string" where
  "strip_sign [] = []"
| "strip_sign (c # cs) = (if c = CHR ''+'' \<or> c = CHR ''-'' then cs else c # cs)"

definition is_decimal :: "string \<Rightarrow> bool" where
  "is_decimal s =
     (case dropWhile is_digit s of
        [] \<Rightarrow> s \<noteq> []
      | c # fraction \<Rightarrow>
          c = CHR ''.'' \<and> list_all is_digit fraction
          \<and> (takeWhile is_digit s \<noteq> [] \<or> fraction \<noteq> []))"

definition is_exponent_mark :: "char \<Rightarrow> bool" where
  "is_exponent_mark c = (c = CHR ''e'' \<or> c = CHR ''E'')"

definition is_float :: "string \<Rightarrow> bool" where
  "is_float s =
     (let t = strip_sign s in
      is_decimal (takeWhile (\<lambda>c. \<not> is_exponent_mark c) t)
      \<and> (case dropWhile (\<lambda>c. \<not> is_exponent_mark c) t of
            [] \<Rightarrow> True
          | c # exponent \<Rightarrow> is_digits (strip_sign exponent)))"

text \<open>
  Modelled from the spec: a numeric token ends with a carriage return and a line feed.
  Of the bytes not yet consumed, \<open>scan_line\<close> gives the body of the token when its
  terminator has arrived, \<open>NoLine\<close> when it has not (the token is cut by the end of the
  input) and \<open>BadLine\<close> when the carriage return is not followed by a line feed.
\<close>

datatype line = NoLine | BadLine | Line string

definition scan_line :: "string \<Rightarrow> line" where
  "scan_line u =
     (case dropWhile (\<lambda>c. c \<noteq> CR) u of
        [] \<Rightarrow> NoLine
      | [c] \<Rightarrow> NoLine
      | c # d # r \<Rightarrow> if d = LF then Line (takeWhile (\<lambda>c. c \<noteq> CR) u) else BadLine)"

text \<open>
  Modelled from the spec: one transition of the machine on the bytes not yet consumed. A
  transition either waits for more input, or fails, or gives the next machine and the
  number of bytes that it consumed. A record is two integers and a float, in this order;
  any other sequence of numeric tokens is malformed. A bulk string is consumed
  independently of the integers that wait for their float. \<open>ReadBulkBody n\<close> copies the
  bytes at hand into the scratch buffer until it holds \<open>n\<close> bytes, then expects a
  carriage return and a line feed. The scratch buffer is not bounded, so that
  \<^verbatim>\<open>Overflow\<close> does not occur.
\<close>

datatype transition = Wait | Fail | Step parser_machine nat

definition read_line :: "string \<Rightarrow> (string \<Rightarrow> parser_machine option) \<Rightarrow> transition" where
  "read_line u token =
     (case scan_line u of
        NoLine \<Rightarrow> Wait
      | BadLine \<Rightarrow> Fail
      | Line body \<Rightarrow>
          (case token body of None \<Rightarrow> Fail | Some m \<Rightarrow> Step m (length body + 2)))"

definition int_token :: "parser_machine \<Rightarrow> string \<Rightarrow> parser_machine option" where
  "int_token m body =
     (if is_digits body \<and> length (tokens m) < 2
      then Some (m\<lparr>state := ExpectType,
                   tokens := tokens m @ [Integer (of_nat (digits_value body))]\<rparr>)
      else None)"

definition float_token :: "parser_machine \<Rightarrow> string \<Rightarrow> parser_machine option" where
  "float_token m body =
     (case tokens m of
        [Integer param, Integer ts] \<Rightarrow>
          if is_float body
          then Some (m\<lparr>state := ExpectType, tokens := [],
                       consumer := consumer m @ [write_double param ts body]\<rparr>)
          else None
      | _ \<Rightarrow> None)"

definition bulk_len_token :: "parser_machine \<Rightarrow> string \<Rightarrow> parser_machine option" where
  "bulk_len_token m body =
     (if is_digits body
      then Some (m\<lparr>state := ReadBulkBody (digits_value body), scratch := []\<rparr>)
      else None)"

definition bulk_body :: "parser_machine \<Rightarrow> nat \<Rightarrow> string \<Rightarrow> transition" where
  "bulk_body m n u =
     (if length (scratch m) < n then
        (if u = [] then Wait
         else Step (m\<lparr>scratch := scratch m @ take (n - length (scratch m)) u\<rparr>)
                (min (n - length (scratch m)) (length u)))
      else
        (case u of
           [] \<Rightarrow> Wait
         | [c] \<Rightarrow> if c = CR then Wait else Fail
         | c # d # r \<Rightarrow>
             if c = CR \<and> d = LF
             then Step (m\<lparr>state := ExpectType, scratch := [],
                          consumer := consumer m @ [add_bulk_string (scratch m) n]\<rparr>) 2
             else Fail))"

definition machine_step :: "parser_machine \<Rightarrow> string \<Rightarrow> transition" where
  "machine_step m u =
     (case state m of
        ExpectType \<Rightarrow>
          (case u of
             [] \<Rightarrow> Wait
           | c # r \<Rightarrow>
               if c = CHR '':'' then Step (m\<lparr>state := ReadInt\<rparr>) 1
               else if c = CHR ''+'' then Step (m\<lparr>state := ReadFloat\<rparr>) 1
               else if c = CHR ''$'' then Step (m\<lparr>state := ReadBulkLen\<rparr>) 1
               else Fail)
      | ReadInt \<Rightarrow> read_line u (int_token m)
      | ReadFloat \<Rightarrow> read_line u (float_token m)
      | ReadBulkLen \<Rightarrow> read_line u (bulk_len_token m)
      | ReadBulkBody n \<Rightarrow> bulk_body m n u
      | ParseError \<Rightarrow> Wait)"

text \<open>
  Modelled from the spec: the machine runs until it waits or fails. A failure is final:
  the state \<open>ParseError\<close> waits forever. Every transition consumes at least one byte
  and no more than there are (\<open>machine_step_consumes\<close> below), so that the last branch
  is never taken; the number of bytes left is the measure of the termination.
\<close>

function machine_run :: "parser_machine \<Rightarrow> string \<Rightarrow> parser_machine \<times> string" where
  "machine_run m u =
     (case machine_step m u of
        Wait \<Rightarrow> (m, u)
      | Fail \<Rightarrow> (m\<lparr>state := ParseError\<rparr>, u)
      | Step m1 k \<Rightarrow> if 0 < k \<and> k \<le> length u then machine_run m1 (drop k u) else (m, u))"
  by pat_completeness auto
termination
  by (relation "measure (\<lambda>(m, u). length u)") auto

declare machine_run.simps [simp del]

text \<open>
  Modelled from the spec: the parser holds the PDUs whose end it has not consumed past,
  oldest first, and a cursor into the logical buffer, which is the concatenation of the
  bytes of the PDUs held. \<open>parse_next\<close> holds the new PDU, runs the machine on the bytes
  from the cursor on, advances the cursor by the number of bytes consumed and releases
  the PDUs that lie before the cursor.
\<close>

record ProtocolParser =
  machine :: parser_machine
  buffers :: "PDU list"
  cursor :: nat

definition logical_buffer :: "PDU list \<Rightarrow> string" where
  "logical_buffer bs = concat (map pdu_bytes bs)"

definition unread :: "ProtocolParser \<Rightarrow> string" where
  "unread p = drop (cursor p) (logical_buffer (buffers p))"

fun release_consumed :: "PDU list \<Rightarrow> nat \<Rightarrow> PDU list \<times> nat" where
  "release_consumed [] c = ([], 0)"
| "release_consumed (b # bs) c =
     (if length (pdu_bytes b) \<le> c then release_consumed bs (c - length (pdu_bytes b))
      else (b # bs, c))"

definition start :: ProtocolParser where
  "start =
     \<lparr>machine = \<lparr>state = ExpectType, tokens = [], scratch = [], consumer = []\<rparr>,
      buffers = [], cursor = 0\<rparr>"

definition parse_next :: "ProtocolParser \<Rightarrow> PDU \<Rightarrow> ProtocolParser" where
  "parse_next p pdu =
     (let held = buffers p @ [pdu];
          input = drop (cursor p) (logical_buffer held)
      in case machine_run (machine p) input of
           (m, rest) \<Rightarrow>
             (case release_consumed held (cursor p + (length input - length rest)) of
                (bs, c) \<Rightarrow> \<lparr>machine = m, buffers = bs, cursor = c\<rparr>))"

text \<open>
  Modelled from the spec: \<open>close\<close> succeeds when the machine is at \<open>ExpectType\<close>, and
  signals \<^verbatim>\<open>TruncatedInput\<close> otherwise.
\<close>

definition parser_close :: "ProtocolParser \<Rightarrow> bool" where
  "parser_close p = (state (machine p) = ExpectType)"

text \<open>The PDU that delivers the given bytes.\<close>

definition make_pdu :: "string \<Rightarrow> PDU" where
  "make_pdu bytes = \<lparr>buffer = bytes, pdu_length = length bytes, pos = 0\<rparr>"

text \<open>
  The machine is copying the body of a bulk string; the cursor of a parser lies within
  its logical buffer.
\<close>

definition copying :: "parser_machine \<Rightarrow> bool" where
  "copying m = (case state m of ReadBulkBody n \<Rightarrow> length (scratch m) < n | _ \<Rightarrow> False)"

definition parser_ok :: "ProtocolParser \<Rightarrow> bool" where
  "parser_ok p = (cursor p \<le> length (logical_buffer (buffers p)))"

section \<open>Properties of runs and states\<close>

text \<open>A run is sorted when its keys do not decrease from one element to the next.\<close>

definition run_sorted :: "SortedRun \<Rightarrow> bool" where
  "run_sorted r = sorted (map key r)"

definition runs_sorted :: "Sequencer \<Rightarrow> bool" where
  "runs_sorted s = ((\<forall>r \<in> set (runs s). run_sorted r) \<and> (\<forall>r \<in> set (ready s). run_sorted r))"

definition runs_nonempty :: "Sequencer \<Rightarrow> bool" where
  "runs_nonempty s = (\<forall>r \<in> set (runs s). r \<noteq> [])"

text \<open>The last keys of the active runs decrease along the run set.\<close>

definition tops_descending :: "SortedRun list \<Rightarrow> bool" where
  "tops_descending rs = sorted_wrt (\<lambda>x y. key (last y) < key (last x)) rs"

text \<open>
  What holds of every state that a client can reach (\<open>reachable_inv\<close>): the window is not
  zero, the timestamp of the current checkpoint is not beyond the top timestamp (so its
  64-bit product is exact), every run is sorted, no active run is empty, and the tops of
  the active runs descend.
\<close>

definition seq_inv :: "Sequencer \<Rightarrow> bool" where
  "seq_inv s =
     (window_size s \<noteq> 0
      \<and> unat (checkpoint s) * unat (window_size s) \<le> unat (top_timestamp s)
      \<and> runs_sorted s \<and> runs_nonempty s \<and> tops_descending (runs s))"

text \<open>
  The body of the loop of \<^verbatim>\<open>make_checkpoint_\<close> for one run: what it pushes to
  \<^verbatim>\<open>new_runs\<close> and what it pushes to \<^verbatim>\<open>ready_\<close>.
\<close>

definition keep_part :: "TimeSeriesValue \<Rightarrow> SortedRun \<Rightarrow> SortedRun list" where
  "keep_part bound sorted_run =
     (let it = lower_bound tsv_less sorted_run bound in
      if it = 0 then [sorted_run] else if it = length sorted_run then []
      else [drop it sorted_run])"

definition move_part :: "TimeSeriesValue \<Rightarrow> SortedRun \<Rightarrow> SortedRun list" where
  "move_part bound sorted_run =
     (let it = lower_bound tsv_less sorted_run bound in
      if it = 0 then [] else if it = length sorted_run then [sorted_run]
      else [take it sorted_run])"

subsection \<open>The checkpoint transition in the words of the specification\<close>

text \<open>
  The position of the first element of a run whose key is at least \<open>b\<close>; the length of
  the run when there is none.
\<close>

definition first_not_less :: "TimeStamp \<times> ParamId \<Rightarrow> SortedRun \<Rightarrow> nat" where
  "first_not_less b r = length (takeWhile (\<lambda>x. key x < b) r)"

text \<open>
  A run is partitioned at that position: at the beginning the run stays active, at the
  end the whole run moves to Ready, otherwise the prefix moves to Ready and the suffix is
  the new active run. The result is the pair of what goes to Ready and what stays.
\<close>

definition partition_run ::
    "TimeStamp \<times> ParamId \<Rightarrow> SortedRun \<Rightarrow> SortedRun list \<times> SortedRun list" where
  "partition_run b r =
     (let pos = first_not_less b r in
      if pos = 0 then ([], [r])
      else if pos = length r then ([r], [])
      else ([take pos r], [drop pos r]))"

text \<open>
  The timestamp at which a run is partitioned: the current checkpoint times the window,
  the product of the two numbers, as a timestamp.
\<close>

definition spec_old_top :: "Sequencer \<Rightarrow> TimeStamp" where
  "spec_old_top s = of_nat (unat (checkpoint s) * unat (window_size s))"

text \<open>The checkpoint id of a timestamp: the quotient of the timestamp by the window.\<close>

definition spec_checkpoint_id :: "Sequencer \<Rightarrow> TimeStamp \<Rightarrow> 32 word" where
  "spec_checkpoint_id s ts = of_nat (unat ts div unat (window_size s))"

text \<open>
  The state after the transition: the progress flag is held, the checkpoint is the id of
  the new timestamp, every active run has been partitioned at \<open>(old_top, max_id)\<close>.
\<close>

definition spec_checkpoint :: "ParamId \<Rightarrow> TimeStamp \<Rightarrow> Sequencer \<Rightarrow> Sequencer" where
  "spec_checkpoint max_id ts s =
     (let old_top = spec_old_top s in
      s\<lparr>progress_flag := True, checkpoint := spec_checkpoint_id s ts,
        runs := concat (map (\<lambda>r. snd (partition_run (old_top, max_id) r)) (runs s)),
        ready := concat (map (\<lambda>r. fst (partition_run (old_top, max_id) r)) (runs s)),
        top_timestamp := ts\<rparr>)"

subsection \<open>The run that receives a value\<close>

text \<open>
  The index of the first run of the run set whose last key is not above the key of \<open>v\<close>;
  the number of runs when there is none.
\<close>

definition first_fit :: "TimeSeriesValue \<Rightarrow> SortedRun list \<Rightarrow> nat" where
  "first_fit v rs = length (takeWhile (\<lambda>r. key v < key (last r)) rs)"

text \<open>
  The reading of the specification: the run whose last key is the smallest one that is
  still at least the key of \<open>v\<close>.
\<close>

definition spec_fit :: "TimeSeriesValue \<Rightarrow> SortedRun list \<Rightarrow> nat \<Rightarrow> bool" where
  "spec_fit v rs i =
     (i < length rs \<and> key v \<le> key (last (rs ! i))
      \<and> (\<forall>r \<in> set rs. key v \<le> key (last r) \<longrightarrow> key (last (rs ! i)) \<le> key (last r)))"

text \<open>The window id of a timestamp, as a number.\<close>

definition window_id :: "Sequencer \<Rightarrow> TimeStamp \<Rightarrow> nat" where
  "window_id s ts = unat ts div unat (window_size s)"

text \<open>The values that a sequencer holds, in its active runs and in Ready.\<close>

definition content :: "Sequencer \<Rightarrow> TimeSeriesValue multiset" where
  "content s = mset (concat (runs s)) + mset (concat (ready s))"

text \<open>Every value in Ready has a window id below the current checkpoint.\<close>

definition ready_precedes :: "Sequencer \<Rightarrow> bool" where
  "ready_precedes s =
     (\<forall>r \<in> set (ready s). \<forall>x \<in> set r. window_id s (fst (key x)) < unat (checkpoint s))"

subsection \<open>Accounting for the admitted values\<close>

text \<open>
  Every admitted value is accounted for once: its payload has been put into a cursor, or
  the value is in an active run or in a run of Ready.
\<close>

definition accounted :: "client \<Rightarrow> bool" where
  "accounted c =
     (mset (map val (admitted c))
        = mset (emitted c) + mset (map val (concat (runs (sequencer c))))
          + mset (map val (concat (ready (sequencer c)))))"

section \<open>Properties of the k-way merge\<close>

text \<open>
  The key of a heap item: the key of its value, then the index of its run. The comparison
  of heap items is the strict order of these keys (\<open>item_less_ikey\<close>).
\<close>

definition ikey :: "HeapItem \<Rightarrow> (TimeStamp \<times> ParamId) \<times> nat" where
  "ikey item = (key (fst item), snd item)"

text \<open>
  \<open>before dir a b\<close>: in the direction \<open>dir\<close>, item \<open>a\<close> may come before item \<open>b\<close>:
  ascending keys in the forward direction, descending keys in the backward one.
\<close>

fun before :: "cursor_direction \<Rightarrow> HeapItem \<Rightarrow> HeapItem \<Rightarrow> bool" where
  "before AKU_CURSOR_DIR_FORWARD a b = (ikey a \<le> ikey b)"
| "before AKU_CURSOR_DIR_BACKWARD a b = (ikey b \<le> ikey a)"

text \<open>The values of a run with the index of the run.\<close>

definition tag :: "nat \<Rightarrow> TimeSeriesValue list \<Rightarrow> HeapItem list" where
  "tag i xs = map (\<lambda>p. (p, i)) xs"

text \<open>
  What holds of the heap and the iterators at every turn of the loop: the heap has at most
  one item of each run, an item of the heap belongs to a run, and a run without an item
  in the heap is exhausted.
\<close>

definition kway_wf :: "TimeSeriesValue list list \<Rightarrow> HeapItem list \<Rightarrow> bool" where
  "kway_wf iter heap =
     (distinct (map snd heap)
      \<and> (\<forall>item \<in> set heap. snd item < length iter)
      \<and> (\<forall>i < length iter. i \<notin> snd ` set heap \<longrightarrow> iter ! i = []))"

text \<open>
  When the runs are sorted, moreover: an item of the heap goes before what is left of its
  run, which is in order.
\<close>

definition kway_ordered ::
    "cursor_direction \<Rightarrow> TimeSeriesValue list list \<Rightarrow> HeapItem list \<Rightarrow> bool" where
  "kway_ordered dir iter heap =
     (\<forall>item \<in> set heap.
        sorted_wrt (before dir) (tag (snd item) (fst item # iter ! snd item)))"

text \<open>The values of run \<open>i\<close> that the loop has still to take: in the heap, then in the run.\<close>

definition pending ::
    "HeapItem list \<Rightarrow> TimeSeriesValue list list \<Rightarrow> nat \<Rightarrow> TimeSeriesValue list" where
  "pending heap iter i =
     map fst (filter (\<lambda>item. snd item = i) heap) @ (if i < length iter then iter ! i else [])"

text \<open>The items that the heap or the iterators hold.\<close>

definition held :: "HeapItem list \<Rightarrow> TimeSeriesValue list list \<Rightarrow> HeapItem set" where
  "held heap iter = set heap \<union> {(p, i). i < length iter \<and> p \<in> set (iter ! i)}"

text \<open>The keys of a list of items go up, or down, in the direction given.\<close>

fun keys_in_order :: "cursor_direction \<Rightarrow> (TimeStamp \<times> ParamId) list \<Rightarrow> bool" where
  "keys_in_order AKU_CURSOR_DIR_FORWARD ks = sorted ks"
| "keys_in_order AKU_CURSOR_DIR_BACKWARD ks = sorted (rev ks)"

section \<open>Examples\<close>

definition example_max_id :: ParamId where
  "example_max_id = 0xFFFFFFFFFFFFFFFD"

text \<open>Window 10, top timestamp 100, checkpoint 10, one active run.\<close>

definition late_state :: Sequencer where
  "late_state =
     \<lparr>window_size = 10, top_timestamp = 100, checkpoint = 10,
      runs = [[make_value 100 1 7]], ready = [], key_run = [make_value 100 1 7],
      progress_flag = False\<rparr>"

text \<open>A checkpoint has been staged and its lock is still held.\<close>

definition busy_state :: Sequencer where
  "busy_state =
     \<lparr>window_size = 10, top_timestamp = 12, checkpoint = 1,
      runs = [[make_value 12 1 2]], ready = [[make_value 5 1 1]],
      key_run = [make_value 12 1 2], progress_flag = True\<rparr>"

text \<open>
  Window 10, checkpoint 1, one active run with the timestamps 5, 8, 12 and 18: the state
  after these four values have been added to a new sequencer.
\<close>

definition split_state :: Sequencer where
  "split_state =
     \<lparr>window_size = 10, top_timestamp = 18, checkpoint = 1,
      runs = [[make_value 5 1 50, make_value 8 1 80, make_value 12 1 120, make_value 18 1 180]],
      ready = [], key_run = [make_value 18 1 180], progress_flag = False\<rparr>"

text \<open>
  Window 10, checkpoint 2, one active run with the timestamps 12, 18, 21 and 25: a later
  state of the same sequencer.
\<close>

definition later_state :: Sequencer where
  "later_state =
     \<lparr>window_size = 10, top_timestamp = 25, checkpoint = 2,
      runs = [[make_value 12 1 120, make_value 18 1 180, make_value 21 1 210,
        make_value 25 1 250]],
      ready = [], key_run = [make_value 25 1 250], progress_flag = False\<rparr>"

text \<open>What the checkpoint transition to checkpoint 2 makes of \<open>split_state\<close>.\<close>

definition split_staged :: Sequencer where
  "split_staged =
     \<lparr>window_size = 10, top_timestamp = 18, checkpoint = 2,
      runs = [[make_value 12 1 120, make_value 18 1 180]],
      ready = [[make_value 5 1 50, make_value 8 1 80]],
      key_run = [make_value 18 1 180], progress_flag = True\<rparr>"

text \<open>The state after the value with timestamp 21 has been added to \<open>split_state\<close>.\<close>

definition split_result :: Sequencer where
  "split_result =
     \<lparr>window_size = 10, top_timestamp = 21, checkpoint = 2,
      runs = [[make_value 12 1 120, make_value 18 1 180, make_value 21 1 210]],
      ready = [[make_value 5 1 50, make_value 8 1 80]],
      key_run = [make_value 21 1 210], progress_flag = True\<rparr>"

text \<open>A new sequencer with window 10 and its client.\<close>

definition fresh_client :: client where
  "fresh_client =
     \<lparr>sequencer = \<lparr>window_size = 10, top_timestamp = 0, checkpoint = 0, runs = [],
        ready = [], key_run = [make_value 0 0 0], progress_flag = False\<rparr>,
      admitted = [], emitted = []\<rparr>"

text \<open>The state after the timestamps 9 and 5 have been added to it: two runs.\<close>

definition fit_state :: Sequencer where
  "fit_state =
     \<lparr>window_size = 10, top_timestamp = 9, checkpoint = 0,
      runs = [[make_value 9 1 90], [make_value 5 1 50]],
      ready = [], key_run = [make_value 5 1 50], progress_flag = False\<rparr>"

text \<open>The client after the timestamp 5 has been added and the sequencer closed.\<close>

definition closed_client :: client where
  "closed_client =
     \<lparr>sequencer = \<lparr>window_size = 10, top_timestamp = 5, checkpoint = 0, runs = [],
        ready = [[make_value 5 1 50]], key_run = [make_value 5 1 50], progress_flag = True\<rparr>,
      admitted = [make_value 5 1 50], emitted = []\<rparr>"

text \<open>
  The two runs of the example of the backward merge: timestamp, parameter and payload
  are the same number.
\<close>

definition run_A :: SortedRun where
  "run_A = [make_value 1 1 1, make_value 3 3 3]"

definition run_B :: SortedRun where
  "run_B = [make_value 2 2 2, make_value 4 4 4]"

text \<open>
  Five values are added to a new sequencer with window 10; the lock of each checkpoint is
  passed to \<open>merge\<close> and released. The second checkpoint emits the payloads 50 and 80.
\<close>

definition flush_ops :: "operation list" where
  "flush_ops =
     [OpAdd (make_value 5 1 50), OpAdd (make_value 8 1 80), OpAdd (make_value 12 1 120),
      OpMerge, OpRelease, OpAdd (make_value 18 1 180), OpAdd (make_value 21 1 210),
      OpMerge, OpRelease]"

definition flush_client :: client where
  "flush_client =
     \<lparr>sequencer =
        \<lparr>window_size = 10, top_timestamp = 21, checkpoint = 2,
         runs = [[make_value 12 1 120, make_value 18 1 180, make_value 21 1 210]],
         ready = [], key_run = [make_value 21 1 210], progress_flag = False\<rparr>,
      admitted = [make_value 5 1 50, make_value 8 1 80, make_value 12 1 120,
        make_value 18 1 180, make_value 21 1 210],
      emitted = [50, 80]\<rparr>"

text \<open>The query for everything: any parameter, the bounds 0 and the largest timestamp.\<close>

definition match_all :: "cursor_direction \<Rightarrow> SearchQuery" where
  "match_all dir =
     \<lparr>lowerbound = 0, upperbound = - 1, param_pred = (\<lambda>p. MATCH), direction = dir\<rparr>"

text \<open>The client after a value with the timestamp 0 has been added to a new sequencer.\<close>

definition zero_client :: client where
  "zero_client =
     \<lparr>sequencer = \<lparr>window_size = 10, top_timestamp = 0, checkpoint = 0,
        runs = [[make_value 0 1 7]], ready = [], key_run = [make_value 0 1 7],
        progress_flag = False\<rparr>,
      admitted = [make_value 0 1 7], emitted = []\<rparr>"

text \<open>
  The messages and the PDUs of the tests \<^verbatim>\<open>Test_protocol_parse_2\<close> and
  \<^verbatim>\<open>Test_protocol_parse_bulk_strings\<close>, with the numbers of bytes that the tests give.
  \<open>joined_pdu\<close> and \<open>bulk_joined\<close> deliver the two messages of a test in one PDU;
  \<open>pdu2_head\<close> and \<open>pdu2_tail\<close> deliver the second message of the first test in two
  parts, cut inside the float \<^verbatim>\<open>12.13\<close>.
\<close>

definition CRLF :: string where
  "CRLF = [CR, LF]"

definition message1 :: string where
  "message1 = '':1'' @ CRLF @ '':2'' @ CRLF @ ''+34.5'' @ CRLF
     @ '':6'' @ CRLF @ '':7'' @ CRLF @ ''+8.9''"

definition message2 :: string where
  "message2 = CRLF @ '':10'' @ CRLF @ '':11'' @ CRLF @ ''+12.13'' @ CRLF
     @ '':14'' @ CRLF @ '':15'' @ CRLF @ ''+16.7'' @ CRLF"

definition bulk1 :: string where
  "bulk1 = ''$12'' @ CRLF @ ''123456''"

definition bulk2 :: string where
  "bulk2 = ''789ABC'' @ CRLF"

definition pdu1 :: PDU where
  "pdu1 = \<lparr>buffer = message1, pdu_length = 27, pos = 0\<rparr>"

definition pdu2 :: PDU where
  "pdu2 = \<lparr>buffer = message2, pdu_length = 37, pos = 0\<rparr>"

definition pdu2_head :: PDU where
  "pdu2_head = \<lparr>buffer = message2, pdu_length = 15, pos = 0\<rparr>"

definition pdu2_tail :: PDU where
  "pdu2_tail = \<lparr>buffer = message2, pdu_length = 37, pos = 15\<rparr>"

definition joined_pdu :: PDU where
  "joined_pdu = \<lparr>buffer = message1 @ message2, pdu_length = 64, pos = 0\<rparr>"

definition bulk_pdu1 :: PDU where
  "bulk_pdu1 = \<lparr>buffer = bulk1, pdu_length = 11, pos = 0\<rparr>"

definition bulk_pdu2 :: PDU where
  "bulk_pdu2 = \<lparr>buffer = bulk2, pdu_length = 8, pos = 0\<rparr>"

definition bulk_joined :: PDU where
  "bulk_joined = \<lparr>buffer = bulk1 @ bulk2, pdu_length = 19, pos = 0\<rparr>"

text \<open>
  Inputs that the parser refuses: a float whose body is no number (in one PDU, and cut
  inside the float), a byte that is no type, and a carriage return that no line feed
  follows.
\<close>

definition bad_message :: string where
  "bad_message = '':1'' @ CRLF @ '':2'' @ CRLF @ ''+e-.'' @ CRLF"

definition bad_float :: PDU where
  "bad_float = \<lparr>buffer = bad_message, pdu_length = 14, pos = 0\<rparr>"

definition bad_float_head :: PDU where
  "bad_float_head = \<lparr>buffer = bad_message, pdu_length = 10, pos = 0\<rparr>"

definition bad_float_tail :: PDU where
  "bad_float_tail = \<lparr>buffer = bad_message, pdu_length = 14, pos = 10\<rparr>"

definition bad_type :: PDU where
  "bad_type = make_pdu (''#1'' @ CRLF)"

definition bad_terminator :: PDU where
  "bad_terminator = make_pdu ('':1'' @ [CR] @ '':2'' @ CRLF)"

text \<open>
  The client after the five values of \<open>flush_ops\<close> have been added: the second
  checkpoint is staged, its lock not yet passed to \<open>merge\<close>.
\<close>

definition staged_ops :: "operation list" where
  "staged_ops =
     [OpAdd (make_value 5 1 50), OpAdd (make_value 8 1 80), OpAdd (make_value 12 1 120),
      OpMerge, OpRelease, OpAdd (make_value 18 1 180), OpAdd (make_value 21 1 210)]"

definition staged_client :: client where
  "staged_client =
     \<lparr>sequencer = split_result,
      admitted = [make_value 5 1 50, make_value 8 1 80, make_value 12 1 120,
        make_value 18 1 180, make_value 21 1 210],
      emitted = []\<rparr>"

section \<open>Binary search\<close>

lemma lower_bound_loop_stop: "lower_bound_loop cmp xs v first 0 = first"
  by (subst lower_bound_loop.simps) simp

lemma lower_bound_loop_right:
  "0 < len \<Longrightarrow> cmp (xs ! (first + len div 2)) v \<Longrightarrow>
   lower_bound_loop cmp xs v first len =
   lower_bound_loop cmp xs v (first + len div 2 + 1) (len - len div 2 - 1)"
  by (subst lower_bound_loop.simps) (simp add: Let_def)

lemma lower_bound_loop_left:
  "0 < len \<Longrightarrow> \<not> cmp (xs ! (first + len div 2)) v \<Longrightarrow>
   lower_bound_loop cmp xs v first len = lower_bound_loop cmp xs v first (len div 2)"
  by (subst lower_bound_loop.simps) (simp add: Let_def)

lemma lower_bound_loop_split:
  assumes "\<forall>i<length xs. cmp (xs ! i) v \<longleftrightarrow> i < k"
    and "first \<le> k" and "k \<le> first + len" and "first + len \<le> length xs"
  shows "lower_bound_loop cmp xs v first len = k"
  using assms
proof (induction cmp xs v first len rule: lower_bound_loop.induct)
  case (1 cmp xs v first len)
  show ?case
  proof (cases "0 < len")
    case False
    with "1.prems" show ?thesis by (simp add: lower_bound_loop_stop)
  next
    case True
    let ?m = "first + len div 2"
    from True "1.prems"(4) have m: "?m < length xs" by linarith
    show ?thesis
    proof (cases "cmp (xs ! ?m) v")
      case c: True
      with "1.prems"(1) m have mk: "?m < k" by blast
      have "lower_bound_loop cmp xs v (?m + 1) (len - len div 2 - 1) = k"
      proof (rule "1.IH"(1)[OF True refl refl c])
        show "\<forall>i<length xs. cmp (xs ! i) v \<longleftrightarrow> i < k" by (rule "1.prems"(1))
        show "?m + 1 \<le> k" using mk by simp
        show "k \<le> ?m + 1 + (len - len div 2 - 1)" using "1.prems"(3) True by linarith
        show "?m + 1 + (len - len div 2 - 1) \<le> length xs" using "1.prems"(4) True by linarith
      qed
      then show ?thesis by (simp only: lower_bound_loop_right[where cmp=cmp and xs=xs and v=v and first=first and len=len, OF True c])
    next
      case c: False
      with "1.prems"(1) m have mk: "k \<le> ?m" by (meson not_le_imp_less)
      have "lower_bound_loop cmp xs v first (len div 2) = k"
      proof (rule "1.IH"(2)[OF True refl refl c])
        show "\<forall>i<length xs. cmp (xs ! i) v \<longleftrightarrow> i < k" by (rule "1.prems"(1))
        show "first \<le> k" by (rule "1.prems"(2))
        show "k \<le> first + len div 2" by (rule mk)
        show "first + len div 2 \<le> length xs" using m by simp
      qed
      then show ?thesis by (simp only: lower_bound_loop_left[where cmp=cmp and xs=xs and v=v and first=first and len=len, OF True c])
    qed
  qed
qed

text \<open>
  Whatever the order of the elements, the element at the position found is one that the
  comparison rejects, and the element before it is one that it accepts.
\<close>

lemma lower_bound_loop_found:
  assumes "first + len < length xs \<longrightarrow> \<not> cmp (xs ! (first + len)) v"
    and "0 < first \<longrightarrow> cmp (xs ! (first - 1)) v"
    and "r = lower_bound_loop cmp xs v first len"
  shows "(r < length xs \<longrightarrow> \<not> cmp (xs ! r) v) \<and> (0 < r \<longrightarrow> cmp (xs ! (r - 1)) v) \<and> first \<le> r \<and> r \<le> first + len"
  using assms
proof (induction cmp xs v first len rule: lower_bound_loop.induct)
  case (1 cmp xs v first len)
  show ?case
  proof (cases "0 < len")
    case False
    with "1.prems" show ?thesis by (simp add: lower_bound_loop_stop)
  next
    case True
    let ?m = "first + len div 2"
    have e: "?m + 1 + (len - len div 2 - 1) = first + len" using True by linarith
    show ?thesis
    proof (cases "cmp (xs ! ?m) v")
      case c: True
      have r: "r = lower_bound_loop cmp xs v (?m + 1) (len - len div 2 - 1)"
        using "1.prems"(3) by (simp only: lower_bound_loop_right[where cmp=cmp and xs=xs and v=v and first=first and len=len, OF True c])
      have "(r < length xs \<longrightarrow> \<not> cmp (xs ! r) v) \<and> (0 < r \<longrightarrow> cmp (xs ! (r - 1)) v)
          \<and> ?m + 1 \<le> r \<and> r \<le> ?m + 1 + (len - len div 2 - 1)"
      proof (rule "1.IH"(1)[OF True refl refl c _ _ r])
        show "?m + 1 + (len - len div 2 - 1) < length xs \<longrightarrow>
              \<not> cmp (xs ! (?m + 1 + (len - len div 2 - 1))) v"
          using "1.prems"(1) by (simp only: e)
        show "0 < ?m + 1 \<longrightarrow> cmp (xs ! (?m + 1 - 1)) v" using c by simp
      qed
      then show ?thesis using e by linarith
    next
      case c: False
      have r: "r = lower_bound_loop cmp xs v first (len div 2)"
        using "1.prems"(3) by (simp only: lower_bound_loop_left[where cmp=cmp and xs=xs and v=v and first=first and len=len, OF True c])
      have "(r < length xs \<longrightarrow> \<not> cmp (xs ! r) v) \<and> (0 < r \<longrightarrow> cmp (xs ! (r - 1)) v)
          \<and> first \<le> r \<and> r \<le> first + len div 2"
      proof (rule "1.IH"(2)[OF True refl refl c _ _ r])
        show "first + len div 2 < length xs \<longrightarrow> \<not> cmp (xs ! (first + len div 2)) v"
          using c by simp
        show "0 < first \<longrightarrow> cmp (xs ! (first - 1)) v" by (rule "1.prems"(2))
      qed
      then show ?thesis by linarith
    qed
  qed
qed

lemma lower_bound_le: "lower_bound cmp xs v \<le> length xs"
  using lower_bound_loop_found [of 0 "length xs" xs cmp v "lower_bound cmp xs v"]
  by (simp add: lower_bound_def)

lemma lower_bound_found:
  "lower_bound cmp xs v < length xs \<Longrightarrow> \<not> cmp (xs ! lower_bound cmp xs v) v"
  using lower_bound_loop_found [of 0 "length xs" xs cmp v "lower_bound cmp xs v"]
  by (simp add: lower_bound_def)

lemma lower_bound_before:
  "0 < lower_bound cmp xs v \<Longrightarrow> cmp (xs ! (lower_bound cmp xs v - 1)) v"
  using lower_bound_loop_found [of 0 "length xs" xs cmp v "lower_bound cmp xs v"]
  by (simp add: lower_bound_def)

lemma mset_concat_update:
  assumes "i < length rs"
  shows "mset (concat (rs[i := rs ! i @ [v]])) = mset (concat rs) + {#v#}"
proof -
  have "concat (rs[i := rs ! i @ [v]]) = concat (take i rs) @ (rs ! i @ [v]) @ concat (drop (Suc i) rs)"
    using assms by (simp add: upd_conv_take_nth_drop)
  moreover have "concat rs = concat (take i rs) @ rs ! i @ concat (drop (Suc i) rs)"
    using assms by (subst id_take_nth_drop [OF assms]) simp
  ultimately show ?thesis by simp
qed

lemma insert_value_eq:
  "insert_value v s =
     (if insert_pos v s = length (runs s)
      then s\<lparr>key_run := butlast (key_run s) @ [v], runs := runs s @ [[v]]\<rparr>
      else s\<lparr>key_run := butlast (key_run s) @ [v],
             runs := (runs s)[insert_pos v s := runs s ! insert_pos v s @ [v]]\<rparr>)"
  by (simp add: insert_value_def insert_pos_def Let_def)

lemma insert_pos_le: "insert_pos v s \<le> length (runs s)"
  by (simp add: insert_pos_def lower_bound_le)

lemma insert_value_frame:
  "top_timestamp (insert_value v s) = top_timestamp s"
  "checkpoint (insert_value v s) = checkpoint s"
  "ready (insert_value v s) = ready s"
  "progress_flag (insert_value v s) = progress_flag s"
  "window_size (insert_value v s) = window_size s"
  by (simp_all add: insert_value_eq)

lemma insert_value_mset:
  "mset (concat (runs (insert_value v s))) = mset (concat (runs s)) + {#v#}"
proof (cases "insert_pos v s = length (runs s)")
  case True
  then show ?thesis by (simp add: insert_value_eq)
next
  case False
  with insert_pos_le [of v s] have "insert_pos v s < length (runs s)" by simp
  then show ?thesis using False by (simp add: insert_value_eq mset_concat_update)
qed

section \<open>Writes below the top timestamp\<close>

text \<open>
  Claim C2. An \<open>add\<close> of a value whose timestamp is below the top timestamp: when the
  distance to the top is more than the window, the result is \<^verbatim>\<open>AKU_ELATE_WRITE\<close>, the
  lock is not owned and the state is the one before, so no run, and neither the top
  timestamp nor the checkpoint, has changed. When the distance is at most the window, the
  result is \<^verbatim>\<open>AKU_SUCCESS\<close>, the value is in the run set once more than before, and the
  top timestamp, the checkpoint and Ready are the ones before.
\<close>

theorem add_below_top:
  assumes "fst (key v) < top_timestamp s"
  shows "(unat (window_size s) < unat (top_timestamp s) - unat (fst (key v))
            \<longrightarrow> add max_id v s = Inr (AKU_ELATE_WRITE, False, s))
       \<and> (unat (top_timestamp s) - unat (fst (key v)) \<le> unat (window_size s)
            \<longrightarrow> add max_id v s = Inr (AKU_SUCCESS, False, insert_value v s)
              \<and> top_timestamp (insert_value v s) = top_timestamp s
              \<and> checkpoint (insert_value v s) = checkpoint s
              \<and> ready (insert_value v s) = ready s
              \<and> mset (concat (runs (insert_value v s))) = mset (concat (runs s)) + {#v#})"
proof -
  from assms have "fst (key v) \<le> top_timestamp s" by simp
  then have "unat (top_timestamp s - fst (key v)) = unat (top_timestamp s) - unat (fst (key v))"
    by (rule unat_sub)
  then have d: "window_size s < top_timestamp s - fst (key v)
      \<longleftrightarrow> unat (window_size s) < unat (top_timestamp s) - unat (fst (key v))"
    by (simp add: word_less_nat_alt)
  show ?thesis
    using assms d
    by (simp add: add_def check_timestamp_def Let_def insert_value_frame insert_value_mset)
qed

theorem add_below_top_witness:
  "add example_max_id (make_value 89 1 0) late_state = Inr (AKU_ELATE_WRITE, False, late_state)
   \<and> add example_max_id (make_value 91 1 0) late_state
       = Inr (AKU_SUCCESS, False, insert_value (make_value 91 1 0) late_state)
   \<and> top_timestamp (insert_value (make_value 91 1 0) late_state) = 100
   \<and> mset (concat (runs (insert_value (make_value 91 1 0) late_state)))
       = {#make_value 100 1 7, make_value 91 1 0#}"
  using add_below_top [of "make_value 89 1 0" late_state example_max_id]
    add_below_top [of "make_value 91 1 0" late_state example_max_id]
  by (simp add: late_state_def make_value_def)

section \<open>A checkpoint that is due while the progress flag is held\<close>

text \<open>
  Claim C10. When \<open>add\<close> returns \<^verbatim>\<open>AKU_EBUSY\<close>, the timestamp of the value is not below
  the top timestamp, a checkpoint is due and the progress flag is held by an earlier
  lock; the lock returned owns nothing; the value is in no run: the state differs from
  the one before in the top timestamp only, which is now the timestamp of the rejected
  value.
\<close>

theorem add_busy_frame:
  assumes "add max_id v s = Inr (AKU_EBUSY, lock, s')"
  shows "top_timestamp s \<le> fst (key v) \<and> checkpoint s < get_checkpoint s (fst (key v))
       \<and> progress_flag s \<and> \<not> lock
       \<and> s' = s\<lparr>top_timestamp := fst (key v)\<rparr>
       \<and> runs s' = runs s \<and> ready s' = ready s \<and> checkpoint s' = checkpoint s
       \<and> top_timestamp s' = fst (key v)"
  using assms
  by (auto simp: add_def check_timestamp_def make_checkpoint_def Let_def
      split: if_splits sum.splits prod.splits)

theorem add_busy_frame_witness:
  "add example_max_id (make_value 25 1 3) busy_state
     = Inr (AKU_EBUSY, False, busy_state\<lparr>top_timestamp := 25\<rparr>)
   \<and> runs (busy_state\<lparr>top_timestamp := 25\<rparr>) = runs busy_state
   \<and> top_timestamp busy_state = 12"
proof -
  have h: "add example_max_id (make_value 25 1 3) busy_state
      = Inr (AKU_EBUSY, False, busy_state\<lparr>top_timestamp := 25\<rparr>)"
    by (simp add: add_def check_timestamp_def make_checkpoint_def get_checkpoint_def
        busy_state_def make_value_def Let_def)
  from add_busy_frame [OF h] h show ?thesis
    by (simp add: busy_state_def)
qed

text \<open>The converse: these conditions are all that \<^verbatim>\<open>AKU_EBUSY\<close> needs.\<close>

lemma add_busy_when:
  assumes "top_timestamp s \<le> fst (key v)" "checkpoint s < get_checkpoint s (fst (key v))"
    "progress_flag s"
  shows "add max_id v s = Inr (AKU_EBUSY, False, s\<lparr>top_timestamp := fst (key v)\<rparr>)"
  using assms
  by (simp add: add_def check_timestamp_def make_checkpoint_def Let_def not_less)

section \<open>The checkpoint transition\<close>

lemma checkpoint_runs_eq:
  "checkpoint_runs bound rs (new_runs, rdy) =
     (new_runs @ concat (map (keep_part bound) rs), rdy @ concat (map (move_part bound) rs))"
  by (induction rs arbitrary: new_runs rdy) (simp_all add: keep_part_def move_part_def Let_def)

lemma sorted_takeWhile_index:
  "sorted (map key r) \<Longrightarrow> i < length r \<Longrightarrow>
   (key (r ! i) < b) = (i < length (takeWhile (\<lambda>x. key x < b) r))"
proof (induction r arbitrary: i)
  case Nil
  then show ?case by simp
next
  case (Cons x r)
  show ?case
  proof (cases "key x < b")
    case True
    with Cons show ?thesis by (cases i) simp_all
  next
    case False
    from Cons.prems have "key x \<le> key ((x # r) ! i)"
      by (cases i) simp_all
    with False show ?thesis by auto
  qed
qed

lemma lower_bound_sorted_run:
  assumes "run_sorted r"
  shows "lower_bound tsv_less r bound = first_not_less (key bound) r"
  unfolding lower_bound_def
proof (rule lower_bound_loop_split)
  show "\<forall>i<length r. tsv_less (r ! i) bound = (i < first_not_less (key bound) r)"
    using assms by (simp add: tsv_less_def first_not_less_def run_sorted_def sorted_takeWhile_index)
  show "first_not_less (key bound) r \<le> 0 + length r"
    by (simp add: first_not_less_def length_takeWhile_le)
qed simp_all

lemma parts_sorted_run:
  assumes "run_sorted r"
  shows "move_part bound r = fst (partition_run (key bound) r)"
    and "keep_part bound r = snd (partition_run (key bound) r)"
  using assms
  by (simp_all add: move_part_def keep_part_def partition_run_def lower_bound_sorted_run Let_def)

lemma make_checkpoint_sorted:
  assumes "\<forall>r \<in> set (runs s). run_sorted r" "\<not> progress_flag s" "ready s = []"
  shows "make_checkpoint max_id cp s =
     Inr (True, s\<lparr>progress_flag := True, checkpoint := cp,
        runs := concat (map (\<lambda>r. snd (partition_run (get_timestamp s (checkpoint s), max_id) r)) (runs s)),
        ready := concat (map (\<lambda>r. fst (partition_run (get_timestamp s (checkpoint s), max_id) r)) (runs s))\<rparr>)"
proof -
  have k: "map (keep_part (make_value t max_id 0)) (runs s)
      = map (\<lambda>r. snd (partition_run (t, max_id) r)) (runs s)" for t
    using assms(1) parts_sorted_run(2) [of _ "make_value t max_id 0"]
    by (simp add: make_value_def)
  have m: "map (move_part (make_value t max_id 0)) (runs s)
      = map (\<lambda>r. fst (partition_run (t, max_id) r)) (runs s)" for t
    using assms(1) parts_sorted_run(1) [of _ "make_value t max_id 0"]
    by (simp add: make_value_def)
  show ?thesis
    by (simp add: make_checkpoint_def checkpoint_runs_eq Let_def k m assms(2,3))
qed

lemma get_timestamp_spec: "get_timestamp s (checkpoint s) = spec_old_top s"
  by (simp add: get_timestamp_def spec_old_top_def)

lemma get_checkpoint_spec: "get_checkpoint s ts = spec_checkpoint_id s ts"
  by (simp add: get_checkpoint_def spec_checkpoint_id_def flip: unat_div)

text \<open>
  In a state that a client reaches the product does not leave the 64 bits of a timestamp.
\<close>

lemma spec_old_top_exact:
  assumes "seq_inv s"
  shows "unat (spec_old_top s) = unat (checkpoint s) * unat (window_size s)"
proof -
  from assms have "unat (checkpoint s) * unat (window_size s) \<le> unat (top_timestamp s)"
    by (simp add: seq_inv_def)
  also have "\<dots> < 2 ^ LENGTH(64)" by (rule unsigned_less)
  finally have "unat (checkpoint s) * unat (window_size s) < 2 ^ LENGTH(64)" .
  then show ?thesis by (simp only: spec_old_top_def unat_of_nat mod_less)
qed

text \<open>
  Claim C1. An \<open>add\<close> that makes the checkpoint transition: the timestamp of the value
  is not below the top timestamp, its checkpoint id (the quotient of the timestamp by the
  window) is above the current checkpoint, the progress flag is free, Ready is empty (the
  transition throws otherwise) and the active runs are sorted. Then \<open>add\<close> succeeds
  with a lock that owns the flag, and the state is the one in which every active run has
  been partitioned at the position of its first element whose key is at least
  \<open>(old_top, max_id)\<close>, where \<open>old_top\<close> is the previous checkpoint times the window:
  at the beginning the run stays active, at the end the whole run moves to Ready,
  otherwise the prefix moves to Ready and the suffix is the new active run
  (\<open>spec_checkpoint\<close>, \<open>partition_run\<close>, \<open>spec_old_top\<close>); the value is inserted
  afterwards. In a state that a client reaches, \<open>old_top\<close> is the exact product.
\<close>

theorem add_checkpoint_partition:
  assumes "\<forall>r \<in> set (runs s). run_sorted r"
    and "top_timestamp s \<le> fst (key v)"
    and "checkpoint s < spec_checkpoint_id s (fst (key v))"
    and "\<not> progress_flag s" and "ready s = []"
  shows "add max_id v s
      = Inr (AKU_SUCCESS, True, insert_value v (spec_checkpoint max_id (fst (key v)) s))
    \<and> (seq_inv s \<longrightarrow> unat (spec_old_top s) = unat (checkpoint s) * unat (window_size s))"
proof -
  from assms(3) have c: "checkpoint s < get_checkpoint s (fst (key v))"
    by (simp only: get_checkpoint_spec)
  have "make_checkpoint max_id (get_checkpoint s (fst (key v))) s
      = Inr (True, s\<lparr>progress_flag := True, checkpoint := spec_checkpoint_id s (fst (key v)),
          runs := concat (map (\<lambda>r. snd (partition_run (spec_old_top s, max_id) r)) (runs s)),
          ready := concat (map (\<lambda>r. fst (partition_run (spec_old_top s, max_id) r)) (runs s))\<rparr>)"
    using make_checkpoint_sorted [OF assms(1,4,5), of max_id "get_checkpoint s (fst (key v))"]
    by (simp only: get_timestamp_spec get_checkpoint_spec)
  with assms(2) c have "add max_id v s
      = Inr (AKU_SUCCESS, True, insert_value v (spec_checkpoint max_id (fst (key v)) s))"
    by (simp add: add_def check_timestamp_def spec_checkpoint_def Let_def not_less)
  then show ?thesis using spec_old_top_exact by blast
qed

text \<open>
  The example of the claim: the run with the timestamps 5, 8, 12 and 18, window 10 and
  checkpoint 1; adding the timestamp 21 leaves 5 and 8 in Ready and 12, 18 and 21 in the
  active run. And a state with checkpoint 2: the run with the timestamps 12, 18, 21 and
  25 is partitioned at the timestamp 20 when the timestamp 31 is added.
\<close>

lemmas eval_defs =
  make_value_def run_sorted_def get_checkpoint_def get_timestamp_def
  spec_checkpoint_def spec_old_top_def spec_checkpoint_id_def partition_run_def
  first_not_less_def insert_value_def lower_bound_def top_element_more_def
  top_element_less_def tsv_less_def Let_def

theorem add_checkpoint_partition_witness:
  "add example_max_id (make_value 21 1 210) split_state
     = Inr (AKU_SUCCESS, True,
         \<lparr>window_size = 10, top_timestamp = 21, checkpoint = 2,
          runs = [[make_value 12 1 120, make_value 18 1 180, make_value 21 1 210]],
          ready = [[make_value 5 1 50, make_value 8 1 80]],
          key_run = [make_value 21 1 210], progress_flag = True\<rparr>)
   \<and> add example_max_id (make_value 31 1 310) later_state
     = Inr (AKU_SUCCESS, True,
         \<lparr>window_size = 10, top_timestamp = 31, checkpoint = 3,
          runs = [[make_value 21 1 210, make_value 25 1 250, make_value 31 1 310]],
          ready = [[make_value 12 1 120, make_value 18 1 180]],
          key_run = [make_value 31 1 310], progress_flag = True\<rparr>)
   \<and> unat (spec_old_top later_state) = 20"
proof -
  have i: "seq_inv later_state"
    by (simp add: seq_inv_def runs_sorted_def run_sorted_def runs_nonempty_def
        tops_descending_def later_state_def make_value_def)
  from add_checkpoint_partition [of split_state "make_value 21 1 210" example_max_id]
    add_checkpoint_partition [of later_state "make_value 31 1 310" example_max_id] i
  show ?thesis
    by (simp add: split_state_def later_state_def example_max_id_def eval_defs
        lower_bound_loop.simps)
qed

section \<open>Sorted runs\<close>

lemma run_sorted_nth:
  "run_sorted r \<longleftrightarrow> (\<forall>i. Suc i < length r \<longrightarrow> key (r ! i) \<le> key (r ! Suc i))"
  by (simp add: run_sorted_def sorted_iff_nth_Suc)

lemma run_sorted_last: "run_sorted r \<Longrightarrow> x \<in> set r \<Longrightarrow> key x \<le> key (last r)"
proof (induction r)
  case Nil
  then show ?case by simp
next
  case (Cons a r)
  then show ?case by (cases "r = []") (auto simp: run_sorted_def)
qed

lemma run_sorted_snoc:
  assumes "run_sorted r" and "r \<noteq> [] \<Longrightarrow> key (last r) \<le> key v"
  shows "run_sorted (r @ [v])"
proof -
  have "key x \<le> key v" if "x \<in> set r" for x
  proof -
    from that have "r \<noteq> []" by auto
    with assms(2) run_sorted_last [OF assms(1) that] show ?thesis by simp
  qed
  with assms(1) show ?thesis by (auto simp: run_sorted_def sorted_append)
qed

lemma run_sorted_take: "run_sorted r \<Longrightarrow> run_sorted (take n r)"
  by (simp add: run_sorted_def take_map [symmetric] sorted_wrt_take)

lemma run_sorted_drop: "run_sorted r \<Longrightarrow> run_sorted (drop n r)"
  by (simp add: run_sorted_def drop_map [symmetric] sorted_wrt_drop)

lemma keep_part_sorted: "run_sorted r \<Longrightarrow> x \<in> set (keep_part bound r) \<Longrightarrow> run_sorted x"
  by (auto simp: keep_part_def Let_def run_sorted_drop split: if_splits)

lemma move_part_sorted: "run_sorted r \<Longrightarrow> x \<in> set (move_part bound r) \<Longrightarrow> run_sorted x"
  by (auto simp: move_part_def Let_def run_sorted_take split: if_splits)

lemma insert_pos_found:
  "insert_pos v s < length (runs s) \<Longrightarrow> key (last (runs s ! insert_pos v s)) \<le> key v"
  using lower_bound_found [of top_element_more "runs s" "butlast (key_run s) @ [v]"]
  by (simp add: insert_pos_def top_element_more_def top_element_less_def tsv_less_def)

lemma insert_value_sorted:
  assumes "runs_sorted s"
  shows "runs_sorted (insert_value v s)"
proof (cases "insert_pos v s = length (runs s)")
  case True
  with assms show ?thesis
    by (auto simp: insert_value_eq runs_sorted_def run_sorted_def)
next
  case False
  with insert_pos_le [of v s] have lt: "insert_pos v s < length (runs s)" by simp
  then have "run_sorted (runs s ! insert_pos v s)"
    using assms by (simp add: runs_sorted_def)
  then have "run_sorted (runs s ! insert_pos v s @ [v])"
    using insert_pos_found [OF lt] by (rule run_sorted_snoc)
  with assms False show ?thesis
    by (auto simp: insert_value_eq runs_sorted_def dest!: set_update_subset_insert [THEN subsetD])
qed

lemma make_checkpoint_cases:
  assumes "make_checkpoint max_id cp s = Inr (owns, s')"
  obtains (busy) "progress_flag s" "\<not> owns" "s' = s"
  | (taken) "\<not> progress_flag s" "ready s = []" "owns"
      "s' = s\<lparr>progress_flag := True, checkpoint := cp,
         runs := concat (map (keep_part (make_value (get_timestamp s (checkpoint s)) max_id 0))
                  (runs s)),
         ready := concat (map (move_part (make_value (get_timestamp s (checkpoint s)) max_id 0))
                  (runs s))\<rparr>"
  using assms
  by (auto simp: make_checkpoint_def checkpoint_runs_eq Let_def split: if_splits)

lemma make_checkpoint_sorted_inv:
  assumes "runs_sorted s" "make_checkpoint max_id cp s = Inr (owns, s')"
  shows "runs_sorted s'"
  using assms(2)
proof (cases rule: make_checkpoint_cases)
  case busy
  with assms(1) show ?thesis by simp
next
  case taken
  have "run_sorted x" if "x \<in> set (concat (map (keep_part b) (runs s)))" for b x
    using that assms(1) by (auto simp: runs_sorted_def intro: keep_part_sorted)
  moreover have "run_sorted x" if "x \<in> set (concat (map (move_part b) (runs s)))" for b x
    using that assms(1) by (auto simp: runs_sorted_def intro: move_part_sorted)
  ultimately show ?thesis
    unfolding taken(4) runs_sorted_def by simp
qed

lemma check_timestamp_sorted:
  assumes "runs_sorted s" "check_timestamp max_id ts s = Inr (status, lock, s')"
  shows "runs_sorted s'"
proof -
  have t: "runs_sorted (x\<lparr>top_timestamp := ts\<rparr>) = runs_sorted x" for x
    by (simp add: runs_sorted_def)
  show ?thesis
    using assms make_checkpoint_sorted_inv [OF assms(1)]
    by (auto simp: check_timestamp_def Let_def t split: if_splits sum.splits)
qed

lemma add_sorted:
  assumes "runs_sorted s" "add max_id v s = Inr (status, lock, s')"
  shows "runs_sorted s'"
  using assms(2) check_timestamp_sorted [OF assms(1)] insert_value_sorted
  by (auto simp: add_def split: sum.splits if_splits)

lemma close_sorted:
  assumes "runs_sorted s" "close s = Inr (owns, s')"
  shows "runs_sorted s'"
  using assms by (auto simp: close_def runs_sorted_def split: if_splits)

lemma merge_sorted: "runs_sorted s \<Longrightarrow> runs_sorted (snd (merge owns s))"
  by (simp add: merge_def runs_sorted_def)

text \<open>
  Claim C8. Every operation keeps the runs sorted: when every run of the state, active or
  in Ready, has keys that do not decrease from one element to the next
  (\<open>runs_sorted\<close>, \<open>run_sorted_nth\<close>), so has every run of the state after \<open>add\<close>,
  after the checkpoint transition, after \<open>close\<close> and after \<open>merge\<close>. And the run that
  the search of \<open>add\<close> finds for a value, when it finds one, has a last key that is not
  above the key of the value.
\<close>

theorem operations_keep_runs_sorted:
  assumes "runs_sorted s"
  shows "(add max_id v s = Inr (status, lock, s1) \<longrightarrow> runs_sorted s1)
       \<and> (make_checkpoint max_id cp s = Inr (owns, s2) \<longrightarrow> runs_sorted s2)
       \<and> (close s = Inr (owns', s3) \<longrightarrow> runs_sorted s3)
       \<and> runs_sorted (snd (merge owns'' s))
       \<and> (insert_pos v s < length (runs s)
            \<longrightarrow> key (last (runs s ! insert_pos v s)) \<le> key v)"
  using assms add_sorted make_checkpoint_sorted_inv close_sorted merge_sorted insert_pos_found
  by blast

lemma split_state_add:
  "add example_max_id (make_value 21 1 210) split_state = Inr (AKU_SUCCESS, True, split_result)"
  by (simp add: add_def check_timestamp_def make_checkpoint_def keep_part_def move_part_def
      split_state_def split_result_def example_max_id_def eval_defs lower_bound_loop.simps)

lemma split_state_checkpoint:
  "make_checkpoint example_max_id 2 split_state = Inr (True, split_staged)"
  by (simp add: make_checkpoint_def split_state_def split_staged_def example_max_id_def
      eval_defs lower_bound_loop.simps)

theorem operations_keep_runs_sorted_witness:
  "runs_sorted split_state
   \<and> add example_max_id (make_value 21 1 210) split_state = Inr (AKU_SUCCESS, True, split_result)
   \<and> runs_sorted split_result
   \<and> make_checkpoint example_max_id 2 split_state = Inr (True, split_staged)
   \<and> runs_sorted split_staged
   \<and> close split_state
       = Inr (True, split_state\<lparr>progress_flag := True, ready := runs split_state, runs := []\<rparr>)
   \<and> runs_sorted (split_state\<lparr>progress_flag := True, ready := runs split_state, runs := []\<rparr>)
   \<and> runs_sorted (snd (merge True split_staged))
   \<and> insert_pos (make_value 21 1 210) split_state = 0
   \<and> key (last (runs split_state ! 0)) \<le> key (make_value 21 1 210)"
proof -
  have h: "runs_sorted split_state"
    by (simp add: runs_sorted_def run_sorted_def split_state_def make_value_def)
  have c: "close split_state
       = Inr (True, split_state\<lparr>progress_flag := True, ready := runs split_state, runs := []\<rparr>)"
    by (simp add: close_def split_state_def)
  have p: "insert_pos (make_value 21 1 210) split_state = 0"
    by (simp add: insert_pos_def split_state_def eval_defs lower_bound_loop.simps)
  have l: "0 < length (runs split_state)"
    by (simp add: split_state_def)
  have g: "runs_sorted split_staged"
    by (simp add: runs_sorted_def run_sorted_def split_staged_def make_value_def)
  from operations_keep_runs_sorted [OF h, of example_max_id "make_value 21 1 210"
      AKU_SUCCESS True split_result 2 True split_staged True
      "split_state\<lparr>progress_flag := True, ready := runs split_state, runs := []\<rparr>"]
    operations_keep_runs_sorted [OF g, of example_max_id "make_value 21 1 210"
      AKU_SUCCESS True split_result 2 True split_staged True split_state True]
    h c p l split_state_add split_state_checkpoint
  show ?thesis by simp
qed

section \<open>The position of an insertion\<close>

lemma takeWhile_index:
  assumes "\<And>i j. i < j \<Longrightarrow> j < length xs \<Longrightarrow> P (xs ! j) \<Longrightarrow> P (xs ! i)"
    and "i < length xs"
  shows "P (xs ! i) = (i < length (takeWhile P xs))"
proof
  assume p: "P (xs ! i)"
  show "i < length (takeWhile P xs)"
  proof (rule ccontr)
    assume "\<not> i < length (takeWhile P xs)"
    then have k: "length (takeWhile P xs) \<le> i" by simp
    with assms(2) have "length (takeWhile P xs) < length xs" by simp
    then have n: "\<not> P (xs ! length (takeWhile P xs))" by (rule nth_length_takeWhile)
    show False
    proof (cases "length (takeWhile P xs) = i")
      case True
      with n p show False by simp
    next
      case False
      with k have "length (takeWhile P xs) < i" by simp
      from assms(1) [OF this assms(2) p] n show False by simp
    qed
  qed
next
  assume "i < length (takeWhile P xs)"
  then have "takeWhile P xs ! i \<in> set (takeWhile P xs)" by (rule nth_mem)
  moreover from \<open>i < length (takeWhile P xs)\<close> have "takeWhile P xs ! i = xs ! i"
    by (rule takeWhile_nth)
  ultimately show "P (xs ! i)" by (auto dest: set_takeWhileD)
qed

lemma tops_descending_nth:
  "tops_descending rs \<longleftrightarrow>
     (\<forall>i j. i < j \<longrightarrow> j < length rs \<longrightarrow> key (last (rs ! j)) < key (last (rs ! i)))"
  by (simp add: tops_descending_def sorted_wrt_iff_nth_less)

lemma insert_pos_first_fit:
  assumes "tops_descending (runs s)"
  shows "insert_pos v s = first_fit v (runs s)"
  unfolding insert_pos_def lower_bound_def
proof (rule lower_bound_loop_split)
  have "(key v < key (last (runs s ! i))) = (i < first_fit v (runs s))"
    if "i < length (runs s)" for i
    unfolding first_fit_def
  proof (rule takeWhile_index [where P = "\<lambda>r. key v < key (last r)"])
    fix i j
    assume "i < j" "j < length (runs s)" "key v < key (last (runs s ! j))"
    moreover from this assms have "key (last (runs s ! j)) < key (last (runs s ! i))"
      by (simp add: tops_descending_nth)
    ultimately show "key v < key (last (runs s ! i))" by simp
  qed (rule that)
  then show "\<forall>i<length (runs s).
      top_element_more (runs s ! i) (butlast (key_run s) @ [v]) = (i < first_fit v (runs s))"
    by (simp add: top_element_more_def top_element_less_def tsv_less_def)
  show "first_fit v (runs s) \<le> 0 + length (runs s)"
    by (simp add: first_fit_def length_takeWhile_le)
qed simp_all

lemma first_fit_before:
  "i < first_fit v rs \<Longrightarrow> key v < key (last (rs ! i))"
proof -
  assume a: "i < first_fit v rs"
  then have "takeWhile (\<lambda>r. key v < key (last r)) rs ! i \<in> set (takeWhile (\<lambda>r. key v < key (last r)) rs)"
    unfolding first_fit_def by (rule nth_mem)
  moreover from a have "takeWhile (\<lambda>r. key v < key (last r)) rs ! i = rs ! i"
    unfolding first_fit_def by (rule takeWhile_nth)
  ultimately show ?thesis by (auto dest: set_takeWhileD)
qed

lemma first_fit_at:
  "first_fit v rs < length rs \<Longrightarrow> key (last (rs ! first_fit v rs)) \<le> key v"
  using nth_length_takeWhile [of "\<lambda>r. key v < key (last r)" rs]
  by (simp add: first_fit_def not_less)

section \<open>The states that a client reaches\<close>

lemma unat_ucast_le: "unat (ucast (x :: 64 word) :: 32 word) \<le> unat x"
  by (simp add: unsigned_ucast_eq)

lemma checkpoint_product_le:
  "unat (get_checkpoint s ts) * unat (window_size s) \<le> unat ts"
proof -
  have "unat (get_checkpoint s ts) \<le> unat ts div unat (window_size s)"
    using unat_ucast_le [of "ts div window_size s"] by (simp add: get_checkpoint_def unat_div)
  then have "unat (get_checkpoint s ts) * unat (window_size s)
      \<le> (unat ts div unat (window_size s)) * unat (window_size s)"
    by (rule mult_le_mono1)
  also have "\<dots> \<le> unat ts" by simp
  finally show ?thesis .
qed

lemma keep_part_cases:
  assumes "r \<noteq> []"
  shows "keep_part bound r = [] \<or> (\<exists>r'. keep_part bound r = [r'] \<and> r' \<noteq> [] \<and> last r' = last r)"
  using assms lower_bound_le [of tsv_less r bound]
  by (auto simp: keep_part_def Let_def)

lemma keep_parts_member:
  assumes "\<forall>r \<in> set rs. r \<noteq> []" and "x \<in> set (concat (map (keep_part bound) rs))"
  shows "x \<noteq> [] \<and> (\<exists>r \<in> set rs. last x = last r)"
proof -
  from assms(2) obtain r where r: "r \<in> set rs" "x \<in> set (keep_part bound r)" by auto
  with assms(1) have "r \<noteq> []" by simp
  from keep_part_cases [OF this, of bound] r show ?thesis by auto
qed

lemma keep_parts_descending:
  assumes "\<forall>r \<in> set rs. r \<noteq> []" and "tops_descending rs"
  shows "tops_descending (concat (map (keep_part bound) rs))"
  using assms
proof (induction rs)
  case Nil
  then show ?case by (simp add: tops_descending_def)
next
  case (Cons r rs)
  then have ih: "tops_descending (concat (map (keep_part bound) rs))"
    by (simp add: tops_descending_def)
  from Cons.prems have ne: "r \<noteq> []" and rest: "\<forall>r \<in> set rs. r \<noteq> []" by simp_all
  from keep_part_cases [OF ne, of bound] show ?case
  proof
    assume "keep_part bound r = []"
    with ih show ?thesis by simp
  next
    assume "\<exists>r'. keep_part bound r = [r'] \<and> r' \<noteq> [] \<and> last r' = last r"
    then obtain r' where r': "keep_part bound r = [r']" "last r' = last r" by blast
    have "key (last y) < key (last r')" if "y \<in> set (concat (map (keep_part bound) rs))" for y
    proof -
      from keep_parts_member [OF rest that] obtain x where "x \<in> set rs" "last y = last x"
        by blast
      with Cons.prems(2) r'(2) show ?thesis by (auto simp: tops_descending_def)
    qed
    with ih r'(1) show ?thesis by (simp add: tops_descending_def)
  qed
qed

lemma make_checkpoint_inv:
  assumes "seq_inv s" "make_checkpoint max_id cp s = Inr (owns, s')"
  shows "runs_sorted s' \<and> runs_nonempty s' \<and> tops_descending (runs s')
       \<and> window_size s' = window_size s \<and> top_timestamp s' = top_timestamp s
       \<and> checkpoint s' = (if owns then cp else checkpoint s)"
proof -
  from assms(1) have s: "runs_sorted s" and n: "runs_nonempty s" and d: "tops_descending (runs s)"
    by (simp_all add: seq_inv_def)
  have so: "runs_sorted s'" using s assms(2) by (rule make_checkpoint_sorted_inv)
  from assms(2) show ?thesis
  proof (cases rule: make_checkpoint_cases)
    case busy
    with assms(1) so show ?thesis by (simp add: seq_inv_def)
  next
    case taken
    from n have ne: "\<forall>r \<in> set (runs s). r \<noteq> []" by (simp add: runs_nonempty_def)
    have "runs_nonempty s'"
      unfolding runs_nonempty_def taken(4) using keep_parts_member [OF ne] by simp
    moreover have "tops_descending (runs s')"
      unfolding taken(4) using keep_parts_descending [OF ne d] by simp
    ultimately show ?thesis using so taken by simp
  qed
qed

lemma check_timestamp_inv:
  assumes "seq_inv s" "check_timestamp max_id ts s = Inr (status, lock, s')"
  shows "seq_inv s'"
proof (cases "ts < top_timestamp s")
  case True
  with assms show ?thesis by (auto simp: check_timestamp_def Let_def split: if_splits)
next
  case False
  then have le: "unat (top_timestamp s) \<le> unat ts" by (simp add: word_le_nat_alt not_less)
  have fr: "runs_sorted (x\<lparr>top_timestamp := ts\<rparr>) = runs_sorted x"
    "runs_nonempty (x\<lparr>top_timestamp := ts\<rparr>) = runs_nonempty x" for x
    by (simp_all add: runs_sorted_def runs_nonempty_def)
  show ?thesis
  proof (cases "checkpoint s < get_checkpoint s ts")
    case c: False
    with False assms le show ?thesis
      by (auto simp: check_timestamp_def Let_def seq_inv_def fr)
  next
    case c: True
    with False assms(2) obtain owns s1 where
      m: "make_checkpoint max_id (get_checkpoint s ts) s = Inr (owns, s1)"
      and s': "s' = s1\<lparr>top_timestamp := ts\<rparr>"
      by (auto simp: check_timestamp_def Let_def split: sum.splits)
    from make_checkpoint_inv [OF assms(1) m] assms(1) le checkpoint_product_le [of s ts]
    show ?thesis
      unfolding s' by (auto simp: seq_inv_def fr)
  qed
qed

lemma tops_descending_snoc:
  assumes "tops_descending rs" "first_fit v rs = length rs"
  shows "tops_descending (rs @ [[v]])"
proof -
  have "key v < key (last x)" if "x \<in> set rs" for x
  proof -
    from that obtain i where "i < length rs" "rs ! i = x" by (auto simp: in_set_conv_nth)
    with first_fit_before [of i v rs] assms(2) show ?thesis by simp
  qed
  with assms(1) show ?thesis by (simp add: tops_descending_def sorted_wrt_append)
qed

lemma tops_descending_update:
  assumes "tops_descending rs" "first_fit v rs < length rs"
  shows "tops_descending (rs[first_fit v rs := rs ! first_fit v rs @ [v]])"
  unfolding tops_descending_nth
proof (intro allI impI)
  fix i j
  let ?k = "first_fit v rs"
  assume ij: "i < j" and j: "j < length (rs[?k := rs ! ?k @ [v]])"
  then have j': "j < length rs" and i': "i < length rs" by simp_all
  from assms(1) ij j' have d: "key (last (rs ! j)) < key (last (rs ! i))"
    by (simp add: tops_descending_nth)
  show "key (last (rs[?k := rs ! ?k @ [v]] ! j)) < key (last (rs[?k := rs ! ?k @ [v]] ! i))"
  proof (cases "i = ?k")
    case True
    with ij have "?k < j" by simp
    with assms(1) j' have "key (last (rs ! j)) < key (last (rs ! ?k))"
      by (simp add: tops_descending_nth)
    also have "\<dots> \<le> key v" using assms(2) by (rule first_fit_at)
    finally show ?thesis using True ij i' by simp
  next
    case False
    show ?thesis
    proof (cases "j = ?k")
      case True
      with ij have "i < ?k" by simp
      then have "key v < key (last (rs ! i))" by (rule first_fit_before)
      with True False i' j' show ?thesis by simp
    next
      case j: False
      with False d show ?thesis by simp
    qed
  qed
qed

lemma insert_value_inv:
  assumes "seq_inv s"
  shows "seq_inv (insert_value v s)"
proof -
  from assms have d: "tops_descending (runs s)" and n: "runs_nonempty s"
    and so: "runs_sorted s" by (simp_all add: seq_inv_def)
  have p: "insert_pos v s = first_fit v (runs s)" using d by (rule insert_pos_first_fit)
  have "runs_sorted (insert_value v s)" using so by (rule insert_value_sorted)
  moreover have "runs_nonempty (insert_value v s)"
    using n by (auto simp: insert_value_eq runs_nonempty_def dest!: set_update_subset_insert [THEN subsetD])
  moreover have "tops_descending (runs (insert_value v s))"
  proof (cases "first_fit v (runs s) = length (runs s)")
    case True
    with d p show ?thesis by (simp add: insert_value_eq tops_descending_snoc)
  next
    case False
    with insert_pos_le [of v s] p have "first_fit v (runs s) < length (runs s)" by simp
    with d p False show ?thesis by (simp add: insert_value_eq tops_descending_update)
  qed
  ultimately show ?thesis using assms by (simp add: seq_inv_def insert_value_frame)
qed

lemma add_inv:
  assumes "seq_inv s" "add max_id v s = Inr (status, lock, s')"
  shows "seq_inv s'"
  using assms(2) check_timestamp_inv [OF assms(1)] insert_value_inv
  by (auto simp: add_def split: sum.splits if_splits)

lemma close_inv:
  assumes "seq_inv s" "close s = Inr (owns, s')"
  shows "seq_inv s'"
  using assms
  by (auto simp: close_def seq_inv_def runs_sorted_def runs_nonempty_def tops_descending_def
      split: if_splits)

lemma merge_inv: "seq_inv s \<Longrightarrow> seq_inv (snd (merge owns s))"
  by (simp add: merge_def seq_inv_def runs_sorted_def runs_nonempty_def)

lemma release_inv: "seq_inv s \<Longrightarrow> seq_inv (release s)"
  by (simp add: release_def seq_inv_def runs_sorted_def runs_nonempty_def)

lemma new_Sequencer_inv: "new_Sequencer window = Inr s \<Longrightarrow> seq_inv s"
  by (auto simp: new_Sequencer_def seq_inv_def runs_sorted_def runs_nonempty_def
      tops_descending_def split: if_splits)

lemma step_inv:
  assumes "seq_inv (sequencer c)" "step max_id x c = Inr c'"
  shows "seq_inv (sequencer c')"
proof (cases x)
  case (OpAdd v)
  with assms(2) add_inv [OF assms(1)] show ?thesis by (auto split: sum.splits)
next
  case OpMerge
  with assms(2) merge_inv [OF assms(1), of "progress_flag (sequencer c)"] show ?thesis
    by (auto split: prod.splits)
next
  case OpRelease
  with assms(2) release_inv [OF assms(1)] show ?thesis by auto
next
  case OpClose
  with assms(2) close_inv [OF assms(1)] show ?thesis by (auto split: sum.splits)
qed

lemma run_ops_inv:
  "seq_inv (sequencer c) \<Longrightarrow> run_ops max_id ops c = Inr c' \<Longrightarrow> seq_inv (sequencer c')"
proof (induction ops arbitrary: c)
  case Nil
  then show ?case by simp
next
  case (Cons x ops)
  then show ?case by (auto split: sum.splits dest: step_inv)
qed

lemma reachable_inv:
  assumes "new_client window = Inr c0" "run_ops max_id ops c0 = Inr c"
  shows "seq_inv (sequencer c)"
proof -
  from assms(1) have "seq_inv (sequencer c0)"
    by (auto simp: new_client_def split: sum.splits dest: new_Sequencer_inv)
  then show ?thesis using assms(2) by (rule run_ops_inv)
qed

section \<open>The run that receives a value\<close>

lemma fresh_client_new: "new_client 10 = Inr fresh_client"
  by (simp add: new_client_def new_Sequencer_def fresh_client_def)

lemmas add_eval =
  add_def check_timestamp_def make_checkpoint_def keep_part_def move_part_def eval_defs
  lower_bound_loop.simps

lemma fit_state_reached:
  "run_ops example_max_id [OpAdd (make_value 9 1 90), OpAdd (make_value 5 1 50)] fresh_client
     = Inr \<lparr>sequencer = fit_state, admitted = [make_value 9 1 90, make_value 5 1 50],
            emitted = []\<rparr>"
  by (simp add: fresh_client_def fit_state_def add_eval)

text \<open>
  Claim C7, as amended. In a state that a client can reach, after the window check of
  \<open>add\<close> has succeeded, the value is pushed to the first run of the run set whose last
  key is not above the key of the value; as the last keys descend along the run set, this
  is the run with the largest last key that is still at most the key of the value, and
  every run before it has a last key above it. When there is no such run, a new run that
  holds only the value is pushed to the end of the run set.
\<close>

theorem add_inserts_first_fit:
  assumes "seq_inv s"
    and "check_timestamp max_id (fst (key v)) s = Inr (AKU_SUCCESS, lock, s1)"
  shows "add max_id v s = Inr (AKU_SUCCESS, lock, insert_value v s1)
       \<and> (first_fit v (runs s1) = length (runs s1)
            \<longrightarrow> runs (insert_value v s1) = runs s1 @ [[v]])
       \<and> (first_fit v (runs s1) < length (runs s1)
            \<longrightarrow> runs (insert_value v s1)
                  = (runs s1)[first_fit v (runs s1) := runs s1 ! first_fit v (runs s1) @ [v]]
              \<and> key (last (runs s1 ! first_fit v (runs s1))) \<le> key v
              \<and> (\<forall>j < length (runs s1). key (last (runs s1 ! j)) \<le> key v
                    \<longrightarrow> key (last (runs s1 ! j)) \<le> key (last (runs s1 ! first_fit v (runs s1)))))
       \<and> (\<forall>i < first_fit v (runs s1). key v < key (last (runs s1 ! i)))"
proof -
  let ?k = "first_fit v (runs s1)"
  from check_timestamp_inv [OF assms] have d: "tops_descending (runs s1)"
    by (simp add: seq_inv_def)
  have p: "insert_pos v s1 = ?k" using d by (rule insert_pos_first_fit)
  have a: "add max_id v s = Inr (AKU_SUCCESS, lock, insert_value v s1)"
    using assms(2) by (simp add: add_def)
  have largest: "key (last (runs s1 ! j)) \<le> key (last (runs s1 ! ?k))"
    if "j < length (runs s1)" "key (last (runs s1 ! j)) \<le> key v" for j
  proof (cases "j = ?k")
    case True
    then show ?thesis by simp
  next
    case False
    have "\<not> j < ?k" using first_fit_before [of j v "runs s1"] that(2) by auto
    with False have "?k < j" by simp
    with d that(1) show ?thesis by (simp add: tops_descending_nth less_imp_le)
  qed
  show ?thesis
    using a p largest first_fit_before [of _ v "runs s1"] first_fit_at [of v "runs s1"]
    by (simp add: insert_value_eq)
qed

theorem add_inserts_first_fit_witness:
  "check_timestamp example_max_id (fst (key (make_value 7 1 70))) fit_state
     = Inr (AKU_SUCCESS, False, fit_state)
   \<and> seq_inv fit_state
   \<and> first_fit (make_value 7 1 70) (runs fit_state) = 1
   \<and> add example_max_id (make_value 7 1 70) fit_state
       = Inr (AKU_SUCCESS, False, insert_value (make_value 7 1 70) fit_state)
   \<and> runs (insert_value (make_value 7 1 70) fit_state)
       = [[make_value 9 1 90], [make_value 5 1 50, make_value 7 1 70]]
   \<and> first_fit (make_value 3 1 30) (runs fit_state) = 2
   \<and> runs (insert_value (make_value 3 1 30) fit_state)
       = [[make_value 9 1 90], [make_value 5 1 50], [make_value 3 1 30]]"
proof -
  have c: "check_timestamp example_max_id (fst (key (make_value 7 1 70))) fit_state
     = Inr (AKU_SUCCESS, False, fit_state)"
    by (simp add: check_timestamp_def fit_state_def make_value_def)
  have c3: "check_timestamp example_max_id (fst (key (make_value 3 1 30))) fit_state
     = Inr (AKU_SUCCESS, False, fit_state)"
    by (simp add: check_timestamp_def fit_state_def make_value_def)
  have d: "seq_inv fit_state"
    by (simp add: seq_inv_def runs_sorted_def run_sorted_def runs_nonempty_def
        tops_descending_def fit_state_def make_value_def)
  have f: "first_fit (make_value 7 1 70) (runs fit_state) = 1"
    "first_fit (make_value 3 1 30) (runs fit_state) = 2"
    by (simp_all add: first_fit_def fit_state_def make_value_def)
  have l: "length (runs fit_state) = 2" "runs fit_state ! 1 = [make_value 5 1 50]"
    by (simp_all add: fit_state_def)
  from add_inserts_first_fit [OF d c] add_inserts_first_fit [OF d c3] c d f l show ?thesis
    by (simp add: fit_state_def)
qed

text \<open>
  The claim as it is written asks for the run whose last key is the smallest one that is
  still at least the key of the value (\<open>spec_fit\<close>). In \<open>fit_state\<close> that is the run
  that ends with the timestamp 9, for a value with the timestamp 7; \<open>add\<close> pushes the
  value to the run that ends with 5.
\<close>

theorem add_inserts_spec_fit_counterexample:
  "spec_fit (make_value 7 1 70) (runs fit_state) 0
   \<and> add example_max_id (make_value 7 1 70) fit_state
       = Inr (AKU_SUCCESS, False,
           fit_state\<lparr>key_run := [make_value 7 1 70],
             runs := [[make_value 9 1 90], [make_value 5 1 50, make_value 7 1 70]]\<rparr>)
   \<and> [[make_value 9 1 90], [make_value 5 1 50, make_value 7 1 70]]
       \<noteq> (runs fit_state)[0 := runs fit_state ! 0 @ [make_value 7 1 70]]"
  by (simp add: spec_fit_def fit_state_def add_eval)

section \<open>The window ids of the values in Ready\<close>

lemma move_part_less:
  assumes "run_sorted r" "y \<in> set (move_part bound r)" "x \<in> set y"
  shows "key x < key bound"
proof -
  let ?P = "\<lambda>x. key x < key bound"
  have "y = take (length (takeWhile ?P r)) r"
    using assms(2)
    by (auto simp: move_part_def lower_bound_sorted_run [OF assms(1)] first_not_less_def Let_def
        split: if_splits)
  then have "y = takeWhile ?P r" by (simp add: takeWhile_eq_take [symmetric])
  with assms(3) show ?thesis by (auto dest: set_takeWhileD)
qed

lemma checkpoint_timestamp_exact:
  assumes "seq_inv s"
  shows "unat (get_timestamp s (checkpoint s)) = unat (checkpoint s) * unat (window_size s)"
proof -
  have u: "unat (ucast (checkpoint s) :: 64 word) = unat (checkpoint s)"
    by (simp add: unsigned_ucast_eq take_bit_nat_eq_self_iff)
       (rule less_trans [OF unsigned_less], simp)
  from assms have "unat (checkpoint s) * unat (window_size s) \<le> unat (top_timestamp s)"
    by (simp add: seq_inv_def)
  also have "\<dots> < 2 ^ LENGTH(64)" by (rule unsigned_less)
  finally have "unat (ucast (checkpoint s) :: 64 word) * unat (window_size s) < 2 ^ LENGTH(64)"
    by (simp only: u)
  then have "unat (ucast (checkpoint s) * window_size s)
      = unat (ucast (checkpoint s) :: 64 word) * unat (window_size s)"
    by (simp only: unat_mult_lem)
  with u show ?thesis by (simp add: get_timestamp_def)
qed

text \<open>
  After an \<open>add\<close> that has made the checkpoint transition (its lock owns the progress
  flag), every value in Ready has a window id below the new checkpoint.
\<close>

lemma add_lock_ready_precedes:
  assumes "seq_inv s" and "add max_id v s = Inr (status, True, s')"
  shows "\<forall>r \<in> set (ready s'). \<forall>x \<in> set r. window_id s' (fst (key x)) < unat (checkpoint s')"
proof (intro ballI)
  fix r x
  assume r: "r \<in> set (ready s')" and x: "x \<in> set r"
  let ?ts = "fst (key v)"
  let ?b = "make_value (get_timestamp s (checkpoint s)) max_id 0"
  from assms(2) obtain st s1 where c: "check_timestamp max_id ?ts s = Inr (st, True, s1)"
    and s': "s' = (if st \<noteq> AKU_SUCCESS then s1 else insert_value v s1)"
    by (auto simp: add_def split: sum.splits if_splits)
  from c have nl: "\<not> ?ts < top_timestamp s" and cp: "checkpoint s < get_checkpoint s ?ts"
    by (auto simp: check_timestamp_def Let_def split: if_splits)
  with c obtain s2 where m: "make_checkpoint max_id (get_checkpoint s ?ts) s = Inr (True, s2)"
    and s1: "s1 = s2\<lparr>top_timestamp := ?ts\<rparr>"
    by (auto simp: check_timestamp_def Let_def split: sum.splits if_splits)
  from m have rd: "ready s2 = concat (map (move_part ?b) (runs s))"
    and ck: "checkpoint s2 = get_checkpoint s ?ts" and w: "window_size s2 = window_size s"
    by (cases rule: make_checkpoint_cases; simp)+
  have fr: "ready s' = ready s2" "checkpoint s' = checkpoint s2" "window_size s' = window_size s2"
    by (simp_all add: s' s1 insert_value_frame)
  from r rd fr(1) obtain r0 where r0: "r0 \<in> set (runs s)" "r \<in> set (move_part ?b r0)"
    by auto
  from assms(1) r0(1) have "run_sorted r0" by (simp add: seq_inv_def runs_sorted_def)
  from move_part_less [OF this r0(2) x] have "fst (key x) \<le> get_timestamp s (checkpoint s)"
    by (auto simp: make_value_def less_prod_def)
  then have "unat (fst (key x)) \<le> unat (checkpoint s) * unat (window_size s)"
    by (simp add: word_le_nat_alt checkpoint_timestamp_exact [OF assms(1)])
  moreover from assms(1) have "0 < unat (window_size s)"
    by (simp add: seq_inv_def unat_gt_0)
  ultimately have "unat (fst (key x)) div unat (window_size s) \<le> unat (checkpoint s)"
    by (metis div_le_mono nonzero_mult_div_cancel_right less_numeral_extra(3))
  also from cp have "\<dots> < unat (get_checkpoint s ?ts)" by (simp add: word_less_nat_alt)
  finally show "window_id s' (fst (key x)) < unat (checkpoint s')"
    by (simp add: window_id_def fr ck w)
qed

lemma check_timestamp_no_lock:
  assumes "check_timestamp max_id ts s = Inr (status, False, s')"
  shows "ready s' = ready s \<and> checkpoint s' = checkpoint s \<and> window_size s' = window_size s"
proof (cases "\<not> ts < top_timestamp s \<and> checkpoint s < get_checkpoint s ts")
  case False
  with assms show ?thesis
    by (auto simp: check_timestamp_def Let_def split: if_splits)
next
  case True
  with assms obtain s1 where m: "make_checkpoint max_id (get_checkpoint s ts) s = Inr (False, s1)"
    and s': "s' = s1\<lparr>top_timestamp := ts\<rparr>"
    by (auto simp: check_timestamp_def Let_def split: sum.splits)
  from m have "s1 = s" by (cases rule: make_checkpoint_cases) simp_all
  with s' show ?thesis by simp
qed

lemma add_ready_precedes:
  assumes "seq_inv s" "ready_precedes s" "add max_id v s = Inr (status, lock, s')"
  shows "ready_precedes s'"
proof (cases lock)
  case True
  with assms(3) have "add max_id v s = Inr (status, True, s')" by simp
  from add_lock_ready_precedes [OF assms(1) this] show ?thesis
    by (simp add: ready_precedes_def)
next
  case False
  with assms(3) obtain st s1 where c: "check_timestamp max_id (fst (key v)) s = Inr (st, False, s1)"
    and s': "s' = (if st \<noteq> AKU_SUCCESS then s1 else insert_value v s1)"
    by (auto simp: add_def split: sum.splits if_splits)
  from check_timestamp_no_lock [OF c] s'
  have "ready s' = ready s \<and> checkpoint s' = checkpoint s \<and> window_size s' = window_size s"
    by (simp add: insert_value_frame)
  with assms(2) show ?thesis by (simp add: ready_precedes_def window_id_def)
qed

lemma step_ready_precedes:
  assumes "seq_inv (sequencer c)" "ready_precedes (sequencer c)" "x \<noteq> OpClose"
    and "step max_id x c = Inr c'"
  shows "ready_precedes (sequencer c')"
proof (cases x)
  case (OpAdd v)
  with assms(4) add_ready_precedes [OF assms(1,2)] show ?thesis by (auto split: sum.splits)
next
  case OpMerge
  with assms(2,4) show ?thesis
    by (auto simp: merge_def ready_precedes_def window_id_def split: if_splits)
next
  case OpRelease
  with assms(2,4) show ?thesis
    by (auto simp: release_def ready_precedes_def window_id_def)
next
  case OpClose
  with assms(3) show ?thesis by simp
qed

lemma run_ops_ready_precedes:
  "seq_inv (sequencer c) \<Longrightarrow> ready_precedes (sequencer c) \<Longrightarrow> OpClose \<notin> set ops \<Longrightarrow>
   run_ops max_id ops c = Inr c' \<Longrightarrow> ready_precedes (sequencer c')"
proof (induction ops arbitrary: c)
  case Nil
  then show ?case by simp
next
  case (Cons x ops)
  from Cons.prems(4) obtain c1 where s: "step max_id x c = Inr c1"
    and r: "run_ops max_id ops c1 = Inr c'"
    by (auto split: sum.splits)
  from Cons.prems(3) have x: "x \<noteq> OpClose" and o: "OpClose \<notin> set ops" by auto
  from step_inv [OF Cons.prems(1) s] step_ready_precedes [OF Cons.prems(1,2) x s] o r
  show ?case by (rule Cons.IH)
qed

text \<open>
  Claim C9, as amended. In every state that a client reaches from a new sequencer without
  calling \<open>close\<close>, every value in Ready has a window id, the quotient of its timestamp
  by the window, strictly below the current checkpoint; so it is after every checkpoint
  transition.
\<close>

theorem ready_precedes_checkpoint:
  assumes "new_client window = Inr c0" and "run_ops max_id ops c0 = Inr c"
    and "OpClose \<notin> set ops"
  shows "\<forall>r \<in> set (ready (sequencer c)). \<forall>x \<in> set r.
           window_id (sequencer c) (fst (key x)) < unat (checkpoint (sequencer c))"
proof -
  from assms(1) obtain s0 where n: "new_Sequencer window = Inr s0" and c0: "sequencer c0 = s0"
    by (auto simp: new_client_def split: sum.splits)
  from n have i: "seq_inv (sequencer c0)" unfolding c0 by (rule new_Sequencer_inv)
  from n have r: "ready_precedes (sequencer c0)"
    unfolding c0 by (auto simp: new_Sequencer_def ready_precedes_def split: if_splits)
  from run_ops_ready_precedes [OF i r assms(3,2)] show ?thesis
    by (simp add: ready_precedes_def)
qed

lemma staged_ops_run: "run_ops example_max_id staged_ops fresh_client = Inr staged_client"
  by (simp add: staged_ops_def fresh_client_def staged_client_def split_result_def merge_def
      release_def add_eval)

theorem ready_precedes_checkpoint_witness:
  "new_client 10 = Inr fresh_client
   \<and> run_ops example_max_id staged_ops fresh_client = Inr staged_client
   \<and> OpClose \<notin> set staged_ops
   \<and> ready (sequencer staged_client) = [[make_value 5 1 50, make_value 8 1 80]]
   \<and> window_id (sequencer staged_client) 5 < unat (checkpoint (sequencer staged_client))
   \<and> window_id (sequencer staged_client) 8 < unat (checkpoint (sequencer staged_client))"
proof -
  have n: "OpClose \<notin> set staged_ops" by (simp add: staged_ops_def)
  from ready_precedes_checkpoint [OF fresh_client_new staged_ops_run n]
    fresh_client_new staged_ops_run n
  show ?thesis by (simp add: staged_client_def split_result_def make_value_def)
qed

text \<open>
  The claim as it is written also covers \<open>close\<close>. It fails there: \<open>close\<close> moves every
  active run to Ready and leaves the checkpoint as it is. A new sequencer with window 10
  that receives the timestamp 5 and is closed has the checkpoint 0 and a value with the
  window id 0 in Ready.
\<close>

theorem close_ready_counterexample:
  "new_client 10 = Inr fresh_client
   \<and> run_ops example_max_id [OpAdd (make_value 5 1 50), OpClose] fresh_client = Inr closed_client
   \<and> make_value 5 1 50 \<in> set (concat (ready (sequencer closed_client)))
   \<and> \<not> window_id (sequencer closed_client) (fst (key (make_value 5 1 50)))
         < unat (checkpoint (sequencer closed_client))"
  by (simp add: fresh_client_new)
     (simp add: fresh_client_def closed_client_def close_def window_id_def add_eval)

section \<open>The heap and the loop of the merge\<close>

lemma pair_less_alt:
  "((ka :: 'a::linorder, i :: nat) < (kb, j)) \<longleftrightarrow> (ka < kb \<or> (\<not> kb < ka \<and> i < j))"
  by (auto simp: less_prod_def)

lemma item_less_ikey: "item_less a b \<longleftrightarrow> ikey a < ikey b"
  by (simp only: item_less_def tsv_less_def ikey_def pair_less_alt)

lemma MergePred_before: "MergePred dir a b \<longleftrightarrow> \<not> before dir a b"
  by (cases dir) (auto simp: item_less_ikey)

lemma before_refl: "before dir a a"
  by (cases dir) simp_all

lemma before_total: "before dir a b \<or> before dir b a"
  by (cases dir) auto

lemma before_trans: "before dir a b \<Longrightarrow> before dir b c \<Longrightarrow> before dir a c"
  by (cases dir) auto

lemma heap_top_in: "heap_top cmp x h \<in> set (x # h)"
  by (induction h arbitrary: x) auto

lemma heap_top_first: "y \<in> set (x # h) \<Longrightarrow> before dir (heap_top (MergePred dir) x h) y"
proof (induction h arbitrary: x y)
  case Nil
  then show ?case by (simp add: before_refl)
next
  case (Cons z h)
  let ?b = "if MergePred dir x z then z else x"
  have bx: "before dir ?b x" and bz: "before dir ?b z"
    using before_total [of dir x z] by (auto simp: MergePred_before before_refl)
  have top: "before dir (heap_top (MergePred dir) ?b h) u" if "u \<in> set (?b # h)" for u
    using that by (rule Cons.IH)
  have tb: "before dir (heap_top (MergePred dir) ?b h) ?b" by (rule top) simp
  from Cons.prems consider "y = x" | "y = z" | "y \<in> set h" by auto
  then have "before dir (heap_top (MergePred dir) ?b h) y"
  proof cases
    case 1
    from tb bx show ?thesis unfolding 1 by (rule before_trans)
  next
    case 2
    from tb bz show ?thesis unfolding 2 by (rule before_trans)
  next
    case 3
    then show ?thesis by (intro top) simp
  qed
  then show ?case by simp
qed

lemma heap_pop_mset: "add_mset (heap_top cmp x h) (mset (heap_pop cmp x h)) = mset (x # h)"
proof -
  have "heap_top cmp x h \<in># mset (x # h)"
    using heap_top_in [of cmp x h] by (simp only: set_mset_mset)
  then show ?thesis
    unfolding heap_pop_def mset_remove1 by (rule insert_DiffM)
qed

lemma heap_pop_set: "set (heap_pop cmp x h) \<subseteq> set (x # h)"
  unfolding heap_pop_def by (rule set_remove1_subset)

lemma heap_pop_distinct:
  assumes "distinct (map snd (x # h))"
  shows "distinct (map snd (heap_pop cmp x h))"
    and "snd (heap_top cmp x h) \<notin> snd ` set (heap_pop cmp x h)"
    and "set (x # h) = insert (heap_top cmp x h) (set (heap_pop cmp x h))"
proof -
  from assms have d: "distinct (x # h)" by (rule distinct_map [THEN iffD1, THEN conjunct1])
  from assms have inj: "inj_on snd (set (x # h))" by (simp only: distinct_map)
  have s: "set (heap_pop cmp x h) = set (x # h) - {heap_top cmp x h}"
    unfolding heap_pop_def using d by (rule set_remove1_eq)
  have "distinct (remove1 (heap_top cmp x h) (x # h))"
    using d by (rule distinct_remove1)
  moreover have "inj_on snd (set (remove1 (heap_top cmp x h) (x # h)))"
    by (rule inj_on_subset [OF inj set_remove1_subset])
  ultimately show "distinct (map snd (heap_pop cmp x h))"
    unfolding heap_pop_def distinct_map by (rule conjI)
  show "snd (heap_top cmp x h) \<notin> snd ` set (heap_pop cmp x h)"
  proof
    assume "snd (heap_top cmp x h) \<in> snd ` set (heap_pop cmp x h)"
    then obtain y where y: "y \<in> set (heap_pop cmp x h)" "snd y = snd (heap_top cmp x h)"
      by (elim imageE) simp
    from y(1) have m: "y \<in> set (x # h)" and n: "y \<noteq> heap_top cmp x h"
      unfolding s by blast+
    from inj_onD [OF inj y(2) m heap_top_in] n show False by blast
  qed
  show "set (x # h) = insert (heap_top cmp x h) (set (heap_pop cmp x h))"
    unfolding s using heap_top_in [of cmp x h] by blast
qed

lemma mset_concat_tl:
  assumes "i < length xs" "xs ! i \<noteq> []"
  shows "add_mset (hd (xs ! i)) (mset (concat (xs[i := tl (xs ! i)]))) = mset (concat xs)"
proof -
  have "concat (xs[i := tl (xs ! i)]) = concat (take i xs) @ tl (xs ! i) @ concat (drop (Suc i) xs)"
    using assms(1) by (simp add: upd_conv_take_nth_drop)
  moreover have "concat xs = concat (take i xs) @ xs ! i @ concat (drop (Suc i) xs)"
    by (subst id_take_nth_drop [OF assms(1)]) simp
  moreover from assms(2) have "mset (xs ! i) = add_mset (hd (xs ! i)) (mset (tl (xs ! i)))"
    by (cases "xs ! i") simp_all
  ultimately show ?thesis by simp
qed

lemma kway_loop_Nil: "kway_loop dir iter [] = []"
  by (simp add: kway_loop.simps)

lemma kway_loop_push:
  assumes "snd (heap_top (MergePred dir) x h) < length iter
      \<and> iter ! snd (heap_top (MergePred dir) x h) \<noteq> []"
  shows "kway_loop dir iter (x # h) =
     heap_top (MergePred dir) x h #
     kway_loop dir
       (iter[snd (heap_top (MergePred dir) x h) := tl (iter ! snd (heap_top (MergePred dir) x h))])
       ((hd (iter ! snd (heap_top (MergePred dir) x h)), snd (heap_top (MergePred dir) x h))
          # heap_pop (MergePred dir) x h)"
  by (subst kway_loop.simps(2)) (simp only: Let_def if_P [OF assms] heap_push_def)

lemma kway_loop_skip:
  assumes "\<not> (snd (heap_top (MergePred dir) x h) < length iter
      \<and> iter ! snd (heap_top (MergePred dir) x h) \<noteq> [])"
  shows "kway_loop dir iter (x # h) =
     heap_top (MergePred dir) x h # kway_loop dir iter (heap_pop (MergePred dir) x h)"
  by (subst kway_loop.simps(2)) (simp only: Let_def if_not_P [OF assms])

lemma kway_wf_push:
  assumes "kway_wf iter (x # h)" and "iter ! snd (heap_top cmp x h) \<noteq> []"
  shows "kway_wf (iter[snd (heap_top cmp x h) := tl (iter ! snd (heap_top cmp x h))])
           ((hd (iter ! snd (heap_top cmp x h)), snd (heap_top cmp x h)) # heap_pop cmp x h)"
proof -
  let ?top = "heap_top cmp x h"
  from assms(1) have d: "distinct (map snd (x # h))"
    and b: "\<forall>item \<in> set (x # h). snd item < length iter"
    and e: "\<forall>i < length iter. i \<notin> snd ` set (x # h) \<longrightarrow> iter ! i = []"
    unfolding kway_wf_def by blast+
  note p = heap_pop_distinct [OF d, of cmp]
  from b heap_top_in [of cmp x h] have t: "snd ?top < length iter" by blast
  have "distinct (map snd ((hd (iter ! snd ?top), snd ?top) # heap_pop cmp x h))"
    using p(1,2) by simp
  moreover have "\<forall>item \<in> set ((hd (iter ! snd ?top), snd ?top) # heap_pop cmp x h).
      snd item < length (iter[snd ?top := tl (iter ! snd ?top)])"
    using b t heap_pop_set [of cmp x h] by auto
  moreover have "\<forall>i < length (iter[snd ?top := tl (iter ! snd ?top)]).
      i \<notin> snd ` set ((hd (iter ! snd ?top), snd ?top) # heap_pop cmp x h)
      \<longrightarrow> iter[snd ?top := tl (iter ! snd ?top)] ! i = []"
  proof (intro allI impI)
    fix i
    assume i: "i < length (iter[snd ?top := tl (iter ! snd ?top)])"
      and n: "i \<notin> snd ` set ((hd (iter ! snd ?top), snd ?top) # heap_pop cmp x h)"
    then have ne: "i \<noteq> snd ?top" and "i \<notin> snd ` set (heap_pop cmp x h)" by auto
    then have "i \<notin> snd ` set (x # h)" unfolding p(3) by auto
    with e i have "iter ! i = []" by simp
    with ne show "iter[snd ?top := tl (iter ! snd ?top)] ! i = []" by simp
  qed
  ultimately show ?thesis by (simp only: kway_wf_def simp_thms)
qed

lemma kway_wf_skip:
  assumes "kway_wf iter (x # h)" and "iter ! snd (heap_top cmp x h) = []"
  shows "kway_wf iter (heap_pop cmp x h)"
proof -
  let ?top = "heap_top cmp x h"
  from assms(1) have d: "distinct (map snd (x # h))"
    and b: "\<forall>item \<in> set (x # h). snd item < length iter"
    and e: "\<forall>i < length iter. i \<notin> snd ` set (x # h) \<longrightarrow> iter ! i = []"
    unfolding kway_wf_def by blast+
  note p = heap_pop_distinct [OF d, of cmp]
  have "\<forall>item \<in> set (heap_pop cmp x h). snd item < length iter"
    using b heap_pop_set [of cmp x h] by auto
  moreover have "\<forall>i < length iter. i \<notin> snd ` set (heap_pop cmp x h) \<longrightarrow> iter ! i = []"
  proof (intro allI impI)
    fix i
    assume i: "i < length iter" and n: "i \<notin> snd ` set (heap_pop cmp x h)"
    show "iter ! i = []"
    proof (cases "i = snd ?top")
      case True
      with assms(2) show ?thesis by simp
    next
      case False
      with n have "i \<notin> snd ` set (x # h)" unfolding p(3) by auto
      with e i show ?thesis by simp
    qed
  qed
  ultimately show ?thesis using p(1) by (simp only: kway_wf_def simp_thms)
qed

lemma kway_wf_top:
  "kway_wf iter (x # h) \<Longrightarrow> snd (heap_top cmp x h) < length iter"
  using heap_top_in [of cmp x h] unfolding kway_wf_def by blast

lemma kway_loop_mset:
  "kway_wf iter heap \<Longrightarrow>
   mset (map fst (kway_loop dir iter heap)) = mset (map fst heap) + mset (concat iter)"
proof (induction dir iter heap rule: kway_loop.induct)
  case (1 dir iter)
  then have "\<forall>xs \<in> set iter. xs = []"
    by (auto simp: kway_wf_def in_set_conv_nth)
  then show ?case by (simp add: kway_loop_Nil)
next
  case (2 dir iter x h)
  let ?top = "heap_top (MergePred dir) x h"
  let ?pop = "heap_pop (MergePred dir) x h"
  have hp: "add_mset (fst ?top) (mset (map fst ?pop)) = mset (map fst (x # h))"
    using heap_pop_mset [of "MergePred dir" x h, THEN arg_cong, of "image_mset fst"]
    by simp
  have t: "snd ?top < length iter" using "2.prems" by (rule kway_wf_top)
  show ?case
  proof (cases "snd ?top < length iter \<and> iter ! snd ?top \<noteq> []")
    case True
    then have wf: "kway_wf (iter[snd ?top := tl (iter ! snd ?top)])
        (heap_push (hd (iter ! snd ?top), snd ?top) ?pop)"
      unfolding heap_push_def using kway_wf_push [OF "2.prems"] by blast
    from "2.IH"(1) [OF refl refl refl True wf]
    have "mset (map fst (kway_loop dir (iter[snd ?top := tl (iter ! snd ?top)])
              (heap_push (hd (iter ! snd ?top), snd ?top) ?pop)))
        = add_mset (hd (iter ! snd ?top)) (mset (map fst ?pop))
          + mset (concat (iter[snd ?top := tl (iter ! snd ?top)]))"
      by (simp add: heap_push_def)
    also have "\<dots> = mset (map fst ?pop) + mset (concat iter)"
      using mset_concat_tl [of "snd ?top" iter] True by simp
    finally show ?thesis
      using hp by (simp add: kway_loop_push [OF True] heap_push_def)
  next
    case False
    with t have "iter ! snd ?top = []" by simp
    with "2.prems" have "kway_wf iter ?pop" by (rule kway_wf_skip)
    from "2.IH"(2) [OF refl refl refl False this] hp show ?thesis
      by (simp add: kway_loop_skip [OF False])
  qed
qed

lemma filter_index_none: "i \<notin> snd ` set hp \<Longrightarrow> filter (\<lambda>item. snd item = i) hp = []"
  by (induction hp) auto

lemma filter_index_one:
  "distinct (map snd hp) \<Longrightarrow> item \<in> set hp \<Longrightarrow> filter (\<lambda>it. snd it = snd item) hp = [item]"
proof (induction hp)
  case Nil
  then show ?case by simp
next
  case (Cons a hp)
  show ?case
  proof (cases "item = a")
    case True
    from Cons.prems(1) have "snd a \<notin> snd ` set hp" by simp
    then have "filter (\<lambda>it. snd it = snd a) hp = []" by (rule filter_index_none)
    with True show ?thesis by simp
  next
    case False
    with Cons.prems have m: "item \<in> set hp" and d: "distinct (map snd hp)" by simp_all
    from Cons.prems(1) m have "snd a \<noteq> snd item" by (auto simp: image_iff)
    with Cons.IH [OF d m] show ?thesis by simp
  qed
qed

lemma heap_pop_filter:
  assumes "i \<noteq> snd (heap_top cmp x h)"
  shows "filter (\<lambda>it. snd it = i) (heap_pop cmp x h) = filter (\<lambda>it. snd it = i) (x # h)"
proof -
  have "heap_top cmp x h \<notin> set (filter (\<lambda>it. snd it = i) (x # h))"
    using assms by auto
  then show ?thesis
    unfolding heap_pop_def filter_remove1 by (rule remove1_idem)
qed

lemma kway_loop_pending:
  "kway_wf iter heap \<Longrightarrow>
   map fst (filter (\<lambda>item. snd item = i) (kway_loop dir iter heap)) = pending heap iter i"
proof (induction dir iter heap rule: kway_loop.induct)
  case (1 dir iter)
  then show ?case by (simp add: kway_loop_Nil pending_def kway_wf_def)
next
  case (2 dir iter x h)
  let ?top = "heap_top (MergePred dir) x h"
  let ?pop = "heap_pop (MergePred dir) x h"
  let ?L = "iter ! snd ?top"
  from "2.prems" have d: "distinct (map snd (x # h))" unfolding kway_wf_def by blast
  note p = heap_pop_distinct [OF d, of "MergePred dir"]
  have t: "snd ?top < length iter" using "2.prems" by (rule kway_wf_top)
  have ftop: "filter (\<lambda>it. snd it = snd ?top) (x # h) = [?top]"
    using d heap_top_in by (rule filter_index_one)
  have fpop: "filter (\<lambda>it. snd it = snd ?top) ?pop = []"
    using p(2) by (rule filter_index_none)
  show ?case
  proof (cases "snd ?top < length iter \<and> ?L \<noteq> []")
    case True
    then have wf: "kway_wf (iter[snd ?top := tl ?L]) (heap_push (hd ?L, snd ?top) ?pop)"
      unfolding heap_push_def using kway_wf_push [OF "2.prems"] by blast
    note ih = "2.IH"(1) [OF refl refl refl True wf]
    show ?thesis
    proof (cases "i = snd ?top")
      case i: True
      from ih True t fpop ftop show ?thesis
        unfolding i kway_loop_push [OF True] by (simp add: pending_def heap_push_def)
    next
      case i: False
      from ih t i heap_pop_filter [OF i] show ?thesis
        unfolding kway_loop_push [OF True] by (simp add: pending_def heap_push_def)
    qed
  next
    case False
    with t have e: "?L = []" by simp
    with "2.prems" have wf: "kway_wf iter ?pop" by (rule kway_wf_skip)
    note ih = "2.IH"(2) [OF refl refl refl False wf]
    show ?thesis
    proof (cases "i = snd ?top")
      case i: True
      from ih t e fpop ftop show ?thesis
        unfolding i kway_loop_skip [OF False] by (simp add: pending_def)
    next
      case i: False
      from ih i heap_pop_filter [OF i] show ?thesis
        unfolding kway_loop_skip [OF False] by (simp add: pending_def)
    qed
  qed
qed

lemma held_push:
  assumes "i < length iter" "iter ! i \<noteq> []" "set hp \<subseteq> set heap"
  shows "held ((hd (iter ! i), i) # hp) (iter[i := tl (iter ! i)]) \<subseteq> held heap iter"
proof
  fix y
  assume "y \<in> held ((hd (iter ! i), i) # hp) (iter[i := tl (iter ! i)])"
  then consider "y = (hd (iter ! i), i)" | "y \<in> set hp"
    | "snd y < length iter" "fst y \<in> set (iter[i := tl (iter ! i)] ! snd y)"
    unfolding held_def by auto
  then show "y \<in> held heap iter"
  proof cases
    case 1
    with assms(1,2) show ?thesis unfolding held_def by simp
  next
    case 2
    with assms(3) show ?thesis unfolding held_def by blast
  next
    case 3
    have "fst y \<in> set (iter ! snd y)"
    proof (cases "snd y = i")
      case True
      with 3(2) assms(1) have "fst y \<in> set (tl (iter ! i))" by simp
      then have "fst y \<in> set (iter ! i)" by (rule list.set_sel(2) [rotated]) (rule assms(2))
      with True show ?thesis by simp
    next
      case False
      with 3(2) show ?thesis by simp
    qed
    with 3(1) show ?thesis unfolding held_def by (cases y) simp
  qed
qed

lemma held_mono: "set hp \<subseteq> set heap \<Longrightarrow> held hp iter \<subseteq> held heap iter"
  unfolding held_def by blast

lemma kway_loop_held: "set (kway_loop dir iter heap) \<subseteq> held heap iter"
proof (induction dir iter heap rule: kway_loop.induct)
  case (1 dir iter)
  show ?case by (simp add: kway_loop_Nil)
next
  case (2 dir iter x h)
  let ?top = "heap_top (MergePred dir) x h"
  let ?pop = "heap_pop (MergePred dir) x h"
  let ?L = "iter ! snd ?top"
  have top: "?top \<in> held (x # h) iter"
    using heap_top_in [of "MergePred dir" x h] unfolding held_def by blast
  show ?case
  proof (cases "snd ?top < length iter \<and> ?L \<noteq> []")
    case True
    from "2.IH"(1) [OF refl refl refl True]
    have "set (kway_loop dir (iter[snd ?top := tl ?L]) ((hd ?L, snd ?top) # ?pop))
        \<subseteq> held ((hd ?L, snd ?top) # ?pop) (iter[snd ?top := tl ?L])"
      by (simp only: heap_push_def)
    also have "\<dots> \<subseteq> held (x # h) iter"
      using True heap_pop_set [of "MergePred dir" x h] by (intro held_push) blast+
    finally show ?thesis
      using top unfolding kway_loop_push [OF True] by simp
  next
    case False
    from "2.IH"(2) [OF refl refl refl False] held_mono [OF heap_pop_set, of "MergePred dir" x h iter]
      top
    show ?thesis unfolding kway_loop_skip [OF False] by auto
  qed
qed

lemma sorted_wrt_tag_Cons:
  "sorted_wrt R (tag i (p # xs)) \<longleftrightarrow> (\<forall>q \<in> set xs. R (p, i) (q, i)) \<and> sorted_wrt R (tag i xs)"
  by (auto simp: tag_def)

lemma top_before_held:
  assumes "kway_wf iter (x # h)" "kway_ordered dir iter (x # h)" "y \<in> held (x # h) iter"
  shows "before dir (heap_top (MergePred dir) x h) y"
proof (cases "y \<in> set (x # h)")
  case True
  then show ?thesis by (rule heap_top_first)
next
  case False
  with assms(3) have j: "snd y < length iter" and q: "fst y \<in> set (iter ! snd y)"
    unfolding held_def by auto
  from q have "iter ! snd y \<noteq> []" by auto
  with assms(1) j have "snd y \<in> snd ` set (x # h)" unfolding kway_wf_def by blast
  then obtain item where "snd y = snd item" "item \<in> set (x # h)" by (rule imageE)
  then have item: "item \<in> set (x # h)" "snd item = snd y" by simp_all
  with assms(2) have "sorted_wrt (before dir) (tag (snd y) (fst item # iter ! snd y))"
    unfolding kway_ordered_def by metis
  with q have "before dir (fst item, snd y) (fst y, snd y)"
    unfolding sorted_wrt_tag_Cons by blast
  with item(2) have "before dir item y" by (metis prod.collapse)
  with heap_top_first [OF item(1), of dir] show ?thesis by (rule before_trans)
qed

lemma kway_ordered_push:
  assumes "kway_wf iter (x # h)" "kway_ordered dir iter (x # h)"
    and "iter ! snd (heap_top cmp x h) \<noteq> []"
  shows "kway_ordered dir (iter[snd (heap_top cmp x h) := tl (iter ! snd (heap_top cmp x h))])
           ((hd (iter ! snd (heap_top cmp x h)), snd (heap_top cmp x h)) # heap_pop cmp x h)"
proof -
  let ?top = "heap_top cmp x h"
  let ?L = "iter ! snd ?top"
  from assms(1) have d: "distinct (map snd (x # h))" unfolding kway_wf_def by blast
  note p = heap_pop_distinct [OF d, of cmp]
  have t: "snd ?top < length iter" using assms(1) by (rule kway_wf_top)
  from assms(2) heap_top_in [of cmp x h]
  have "sorted_wrt (before dir) (tag (snd ?top) (fst ?top # ?L))"
    unfolding kway_ordered_def by blast
  then have "sorted_wrt (before dir) (tag (snd ?top) ?L)"
    unfolding sorted_wrt_tag_Cons by blast
  with assms(3) have new: "sorted_wrt (before dir) (tag (snd ?top) (hd ?L # tl ?L))" by simp
  have old: "sorted_wrt (before dir)
      (tag (snd item) (fst item # iter[snd ?top := tl ?L] ! snd item))"
    if "item \<in> set (heap_pop cmp x h)" for item
  proof -
    from that p(2) have "snd item \<noteq> snd ?top" by (metis imageI)
    moreover from that heap_pop_set [of cmp x h] assms(2)
    have "sorted_wrt (before dir) (tag (snd item) (fst item # iter ! snd item))"
      unfolding kway_ordered_def by blast
    ultimately show ?thesis by simp
  qed
  show ?thesis
    unfolding kway_ordered_def using new old t by simp
qed

lemma kway_ordered_skip:
  assumes "kway_ordered dir iter (x # h)"
  shows "kway_ordered dir iter (heap_pop cmp x h)"
  using assms heap_pop_set [of cmp x h] unfolding kway_ordered_def by blast

lemma kway_loop_sorted:
  "kway_wf iter heap \<Longrightarrow> kway_ordered dir iter heap \<Longrightarrow>
   sorted_wrt (before dir) (kway_loop dir iter heap)"
proof (induction dir iter heap rule: kway_loop.induct)
  case (1 dir iter)
  show ?case by (simp add: kway_loop_Nil)
next
  case (2 dir iter x h)
  let ?top = "heap_top (MergePred dir) x h"
  let ?pop = "heap_pop (MergePred dir) x h"
  let ?L = "iter ! snd ?top"
  have t: "snd ?top < length iter" using "2.prems"(1) by (rule kway_wf_top)
  have first: "before dir ?top y" if "y \<in> set (kway_loop dir iter (x # h))" for y
    using "2.prems" kway_loop_held [THEN subsetD, OF that] by (rule top_before_held)
  show ?case
  proof (cases "snd ?top < length iter \<and> ?L \<noteq> []")
    case True
    then have wf: "kway_wf (iter[snd ?top := tl ?L]) (heap_push (hd ?L, snd ?top) ?pop)"
      unfolding heap_push_def using kway_wf_push [OF "2.prems"(1)] by blast
    from True have od: "kway_ordered dir (iter[snd ?top := tl ?L])
        (heap_push (hd ?L, snd ?top) ?pop)"
      unfolding heap_push_def using kway_ordered_push [OF "2.prems"] by blast
    from "2.IH"(1) [OF refl refl refl True wf od] first show ?thesis
      unfolding kway_loop_push [OF True] by (simp add: heap_push_def)
  next
    case False
    with t have e: "?L = []" by simp
    with "2.prems"(1) have wf: "kway_wf iter ?pop" by (rule kway_wf_skip)
    from "2.prems"(2) have od: "kway_ordered dir iter ?pop" by (rule kway_ordered_skip)
    from "2.IH"(2) [OF refl refl refl False wf od] first show ?thesis
      unfolding kway_loop_skip [OF False] by simp
  qed
qed

section \<open>The heap after seeding\<close>

lemma kway_seed_steps:
  assumes "k \<le> length it" and "fold kway_seed_step [0..<k] (it, []) = (iter, heap)"
  shows "length iter = length it
       \<and> (\<forall>i < length it. iter ! i = (if i < k then tl (it ! i) else it ! i))
       \<and> distinct (map snd heap)
       \<and> snd ` set heap = {i. i < k \<and> it ! i \<noteq> []}
       \<and> (\<forall>item \<in> set heap. fst item = hd (it ! snd item))
       \<and> mset (map fst heap) + mset (concat iter) = mset (concat it)"
  using assms
proof (induction k arbitrary: iter heap)
  case 0
  then show ?case by simp
next
  case (Suc k)
  obtain iter0 heap0 where f: "fold kway_seed_step [0..<k] (it, []) = (iter0, heap0)"
    by (cases "fold kway_seed_step [0..<k] (it, [])")
  from Suc.prems(1) have k: "k < length it" by simp
  from Suc.IH [OF _ f] k have len: "length iter0 = length it"
    and nth: "\<forall>i < length it. iter0 ! i = (if i < k then tl (it ! i) else it ! i)"
    and d: "distinct (map snd heap0)"
    and ix: "snd ` set heap0 = {i. i < k \<and> it ! i \<noteq> []}"
    and hd: "\<forall>item \<in> set heap0. fst item = hd (it ! snd item)"
    and ms: "mset (map fst heap0) + mset (concat iter0) = mset (concat it)"
    by simp_all
  from nth k have at: "iter0 ! k = it ! k" by simp
  from Suc.prems(2) f have s: "(iter, heap) = kway_seed_step k (iter0, heap0)" by simp
  show ?case
  proof (cases "it ! k = []")
    case True
    with s at have e: "iter = iter0" "heap = heap0" by simp_all
    have "{i. i < Suc k \<and> it ! i \<noteq> []} = {i. i < k \<and> it ! i \<noteq> []}"
      using True by (auto simp: less_Suc_eq)
    moreover have "\<forall>i < length it. iter0 ! i = (if i < Suc k then tl (it ! i) else it ! i)"
      using nth True by (auto simp: less_Suc_eq)
    ultimately show ?thesis unfolding e using len d ix hd ms by simp
  next
    case False
    with s at have e: "iter = iter0[k := tl (it ! k)]" "heap = (hd (it ! k), k) # heap0"
      by (simp_all add: heap_push_def)
    from ix have nk: "k \<notin> snd ` set heap0" by simp
    have "{i. i < Suc k \<and> it ! i \<noteq> []} = insert k {i. i < k \<and> it ! i \<noteq> []}"
      using False by (auto simp: less_Suc_eq)
    then have ix': "snd ` set ((hd (it ! k), k) # heap0) = {i. i < Suc k \<and> it ! i \<noteq> []}"
      using ix by simp
    have nth': "\<forall>i < length it. iter0[k := tl (it ! k)] ! i
        = (if i < Suc k then tl (it ! i) else it ! i)"
      using nth len by (auto simp: less_Suc_eq nth_list_update)
    have tl: "add_mset (hd (it ! k)) (mset (concat (iter0[k := tl (it ! k)])))
        = mset (concat iter0)"
      using mset_concat_tl [of k iter0] k len False unfolding at by simp
    have "mset (map fst ((hd (it ! k), k) # heap0)) + mset (concat (iter0[k := tl (it ! k)]))
        = mset (map fst heap0)
          + add_mset (hd (it ! k)) (mset (concat (iter0[k := tl (it ! k)])))"
      by simp
    also have "\<dots> = mset (map fst heap0) + mset (concat iter0)"
      by (simp only: tl)
    also note ms
    finally have ms': "mset (map fst ((hd (it ! k), k) # heap0))
        + mset (concat (iter0[k := tl (it ! k)])) = mset (concat it)" .
    show ?thesis unfolding e using len d nk ix' nth' hd ms' by simp
  qed
qed

lemma RunIter_sorted:
  assumes "run_sorted r"
  shows "sorted_wrt (before dir) (tag i (RunIter dir r))"
proof -
  from assms have s: "sorted_wrt (\<lambda>p q. key p \<le> key q) r"
    by (simp add: run_sorted_def sorted_wrt_map)
  show ?thesis
  proof (cases dir)
    case AKU_CURSOR_DIR_FORWARD
    from s have "sorted_wrt (\<lambda>p q. before AKU_CURSOR_DIR_FORWARD (p, i) (q, i)) r"
      by (rule sorted_wrt_mono_rel [rotated]) (simp add: ikey_def)
    then show ?thesis
      unfolding AKU_CURSOR_DIR_FORWARD by (simp add: tag_def sorted_wrt_map)
  next
    case AKU_CURSOR_DIR_BACKWARD
    from s have "sorted_wrt (\<lambda>p q. before AKU_CURSOR_DIR_BACKWARD (q, i) (p, i)) r"
      by (rule sorted_wrt_mono_rel [rotated]) (simp add: ikey_def)
    then show ?thesis
      unfolding AKU_CURSOR_DIR_BACKWARD by (simp add: tag_def sorted_wrt_map sorted_wrt_rev)
  qed
qed

lemma concat_RunIter: "mset (concat (map (RunIter dir) rs)) = mset (concat rs)"
  by (induction rs) (cases dir; simp)+

lemma kway_seed_wf:
  assumes "kway_seed dir rs = (iter, heap)"
  shows "kway_wf iter heap"
    and "mset (map fst heap) + mset (concat iter) = mset (concat rs)"
    and "i < length rs \<Longrightarrow> pending heap iter i = RunIter dir (rs ! i)"
    and "\<forall>r \<in> set rs. run_sorted r \<Longrightarrow> kway_ordered dir iter heap"
proof -
  let ?it = "map (RunIter dir) rs"
  from assms have f: "fold kway_seed_step [0..<length ?it] (?it, []) = (iter, heap)"
    by (simp add: kway_seed_def)
  from kway_seed_steps [OF le_refl f]
  have len: "length iter = length rs"
    and nth: "\<forall>i < length rs. iter ! i = tl (?it ! i)"
    and d: "distinct (map snd heap)"
    and ix: "snd ` set heap = {i. i < length rs \<and> ?it ! i \<noteq> []}"
    and hd: "\<forall>item \<in> set heap. fst item = hd (?it ! snd item)"
    and ms: "mset (map fst heap) + mset (concat iter) = mset (concat ?it)"
    by simp_all
  have ex: "iter ! i = []" if "i < length iter" "i \<notin> snd ` set heap" for i
  proof -
    from that ix len have "?it ! i = []" by auto
    with nth that(1) len show ?thesis by simp
  qed
  from ix have "\<forall>item \<in> set heap. snd item < length iter"
    unfolding len by (metis (mono_tags, lifting) imageI mem_Collect_eq)
  with d ex show "kway_wf iter heap" unfolding kway_wf_def by blast
  from ms show "mset (map fst heap) + mset (concat iter) = mset (concat rs)"
    by (simp only: concat_RunIter)
  show "pending heap iter i = RunIter dir (rs ! i)" if i: "i < length rs"
  proof (cases "?it ! i = []")
    case True
    with ix have "i \<notin> snd ` set heap" by simp
    then have "filter (\<lambda>item. snd item = i) heap = []" by (rule filter_index_none)
    with True nth i len show ?thesis by (simp add: pending_def)
  next
    case False
    with ix i have "i \<in> snd ` set heap" by simp
    then obtain item where "i = snd item" "item \<in> set heap" by (rule imageE)
    then have item: "item \<in> set heap" "snd item = i" by simp_all
    from filter_index_one [OF d item(1)] item(2)
    have "filter (\<lambda>it. snd it = i) heap = [item]" by simp
    moreover from hd item have "fst item = hd (?it ! i)" by auto
    ultimately show ?thesis using False nth i len by (simp add: pending_def)
  qed
  show "kway_ordered dir iter heap" if so: "\<forall>r \<in> set rs. run_sorted r"
    unfolding kway_ordered_def
  proof
    fix item
    assume m: "item \<in> set heap"
    with ix have i: "snd item < length rs" and ne: "?it ! snd item \<noteq> []"
      by (metis (mono_tags, lifting) imageI mem_Collect_eq)+
    from so i have "run_sorted (rs ! snd item)" by simp
    then have "sorted_wrt (before dir) (tag (snd item) (RunIter dir (rs ! snd item)))"
      by (rule RunIter_sorted)
    moreover from hd m nth i ne
    have "fst item # iter ! snd item = RunIter dir (rs ! snd item)" by simp
    ultimately show "sorted_wrt (before dir) (tag (snd item) (fst item # iter ! snd item))"
      by simp
  qed
qed

lemma kway_items_mset: "mset (map fst (kway_items dir rs)) = mset (concat rs)"
proof -
  obtain iter heap where s: "kway_seed dir rs = (iter, heap)" by (cases "kway_seed dir rs")
  from kway_seed_wf(1,2) [OF s] kway_loop_mset [of iter heap dir] show ?thesis
    by (simp add: kway_items_def s)
qed

lemma kway_merge_mset: "mset (kway_merge dir rs) = mset (map val (concat rs))"
proof -
  have "mset (kway_merge dir rs) = image_mset val (image_mset fst (mset (kway_items dir rs)))"
    by (simp add: kway_merge_def multiset.map_comp comp_def)
  moreover have "image_mset fst (mset (kway_items dir rs)) = mset (concat rs)"
    using kway_items_mset [of dir rs] by simp
  ultimately show ?thesis by simp
qed

lemma kway_items_run:
  assumes "i < length rs"
  shows "map fst (filter (\<lambda>item. snd item = i) (kway_items dir rs)) = RunIter dir (rs ! i)"
proof -
  obtain iter heap where s: "kway_seed dir rs = (iter, heap)" by (cases "kway_seed dir rs")
  from kway_seed_wf(1,3) [OF s] assms kway_loop_pending [of iter heap i dir] show ?thesis
    by (simp add: kway_items_def s)
qed

lemma kway_items_sorted:
  assumes "\<forall>r \<in> set rs. run_sorted r"
  shows "sorted_wrt (before dir) (kway_items dir rs)"
proof -
  obtain iter heap where s: "kway_seed dir rs = (iter, heap)" by (cases "kway_seed dir rs")
  from kway_seed_wf(1,4) [OF s] assms kway_loop_sorted [of iter heap dir] show ?thesis
    by (simp add: kway_items_def s)
qed

lemma before_keys_in_order:
  assumes "sorted_wrt (before dir) items"
  shows "keys_in_order dir (map (\<lambda>item. key (fst item)) items)"
proof (cases dir)
  case AKU_CURSOR_DIR_FORWARD
  have "sorted_wrt (\<lambda>a b. key (fst a) \<le> key (fst b)) items"
    using assms unfolding AKU_CURSOR_DIR_FORWARD
    by (rule sorted_wrt_mono_rel [rotated]) (auto simp: ikey_def)
  then show ?thesis unfolding AKU_CURSOR_DIR_FORWARD by (simp add: sorted_wrt_map)
next
  case AKU_CURSOR_DIR_BACKWARD
  have "sorted_wrt (\<lambda>a b. key (fst b) \<le> key (fst a)) items"
    using assms unfolding AKU_CURSOR_DIR_BACKWARD
    by (rule sorted_wrt_mono_rel [rotated]) (auto simp: ikey_def)
  then show ?thesis unfolding AKU_CURSOR_DIR_BACKWARD
    by (simp add: sorted_wrt_map sorted_wrt_rev)
qed

section \<open>The merge emits in order\<close>

text \<open>
  Claim C4. For every list of sorted runs and either direction, the items that
  \<open>kway_merge\<close> takes from the heap are the elements of all the runs, each once; their
  keys (timestamp, parameter) ascend in the forward direction and descend in the backward
  one; the tie between equal keys is decided by the index of the run (\<open>before\<close> compares
  the key, then the index); the items of one run are taken in the order of its iterator,
  from head to tail in the forward direction and from tail to head in the backward one;
  and the payloads put into the cursor are those of the items, in this order. The
  emitted sequence is a function of the direction and the runs.
\<close>

theorem kway_merge_in_order:
  assumes "\<forall>r \<in> set rs. run_sorted r"
  shows "mset (map fst (kway_items dir rs)) = mset (concat rs)
       \<and> keys_in_order dir (map (\<lambda>item. key (fst item)) (kway_items dir rs))
       \<and> sorted_wrt (before dir) (kway_items dir rs)
       \<and> (\<forall>i < length rs.
            map fst (filter (\<lambda>item. snd item = i) (kway_items dir rs)) = RunIter dir (rs ! i))
       \<and> kway_merge dir rs = map (\<lambda>item. val (fst item)) (kway_items dir rs)"
  using kway_items_mset kway_items_sorted [OF assms] kway_items_run
    before_keys_in_order [OF kway_items_sorted [OF assms]]
  by (simp add: kway_merge_def)

text \<open>
  The example of the claim: the runs with the keys 1, 3 and 2, 4, merged backward, emit
  the payloads 4, 3, 2, 1.
\<close>

lemmas kway_eval =
  kway_items_def kway_seed_def kway_loop.simps heap_pop_def heap_push_def item_less_def
  tsv_less_def make_value_def Let_def

lemma backward_items:
  "kway_items AKU_CURSOR_DIR_BACKWARD [run_A, run_B]
     = [(make_value 4 4 4, 1), (make_value 3 3 3, 0), (make_value 2 2 2, 1), (make_value 1 1 1, 0)]"
  by (simp add: run_A_def run_B_def kway_eval)

lemma forward_items:
  "kway_items AKU_CURSOR_DIR_FORWARD [run_A, run_B]
     = [(make_value 1 1 1, 0), (make_value 2 2 2, 1), (make_value 3 3 3, 0), (make_value 4 4 4, 1)]"
  by (simp add: run_A_def run_B_def kway_eval)

theorem kway_merge_in_order_witness:
  "run_sorted run_A \<and> run_sorted run_B
   \<and> kway_merge AKU_CURSOR_DIR_BACKWARD [run_A, run_B] = [4, 3, 2, 1]
   \<and> kway_merge AKU_CURSOR_DIR_FORWARD [run_A, run_B] = [1, 2, 3, 4]
   \<and> keys_in_order AKU_CURSOR_DIR_BACKWARD [(4, 4), (3, 3), (2, 2), (1, 1)]
   \<and> map fst (filter (\<lambda>item. snd item = 1) (kway_items AKU_CURSOR_DIR_BACKWARD [run_A, run_B]))
       = rev run_B"
proof -
  have h: "\<forall>r \<in> set [run_A, run_B]. run_sorted r"
    by (simp add: run_A_def run_B_def run_sorted_def make_value_def)
  from kway_merge_in_order [OF h, of AKU_CURSOR_DIR_BACKWARD]
    kway_merge_in_order [OF h, of AKU_CURSOR_DIR_FORWARD] h
  show ?thesis
    by (simp add: backward_items forward_items) (simp add: run_B_def make_value_def)
qed

section \<open>Every admitted value is emitted once\<close>

lemma parts_mset:
  "mset (concat (keep_part bound r)) + mset (concat (move_part bound r)) = mset r"
proof -
  have "mset (drop n r) + mset (take n r) = mset r" for n
    by (metis append_take_drop_id mset_append union_commute)
  then show ?thesis by (simp add: keep_part_def move_part_def Let_def)
qed

lemma parts_concat_mset:
  "mset (concat (concat (map (keep_part bound) rs)))
     + mset (concat (concat (map (move_part bound) rs))) = mset (concat rs)"
proof (induction rs)
  case Nil
  show ?case by simp
next
  case (Cons r rs)
  have "mset (concat (concat (map (keep_part bound) (r # rs))))
      + mset (concat (concat (map (move_part bound) (r # rs))))
    = (mset (concat (keep_part bound r)) + mset (concat (move_part bound r)))
      + (mset (concat (concat (map (keep_part bound) rs)))
         + mset (concat (concat (map (move_part bound) rs))))"
    by simp
  also have "\<dots> = mset r + mset (concat rs)" by (simp only: parts_mset Cons.IH)
  finally show ?case by simp
qed

lemma make_checkpoint_content:
  assumes "make_checkpoint max_id cp s = Inr (owns, s')"
  shows "content s' = content s"
  using assms
proof (cases rule: make_checkpoint_cases)
  case busy
  then show ?thesis by simp
next
  case taken
  show ?thesis unfolding taken(4) content_def using taken(2) by (simp add: parts_concat_mset)
qed

lemma check_timestamp_content:
  assumes "check_timestamp max_id ts s = Inr (status, lock, s')"
  shows "content s' = content s"
proof -
  have t: "content (x\<lparr>top_timestamp := ts\<rparr>) = content x" for x
    by (simp add: content_def)
  from assms show ?thesis
    by (auto simp: check_timestamp_def Let_def t split: if_splits sum.splits
        dest: make_checkpoint_content)
qed

lemma add_content:
  assumes "add max_id v s = Inr (status, lock, s')"
  shows "content s' = (if status = AKU_SUCCESS then add_mset v (content s) else content s)"
proof -
  have i: "content (insert_value v x) = add_mset v (content x)" for x
    by (simp add: content_def insert_value_mset insert_value_frame)
  from assms obtain st s1 where c: "check_timestamp max_id (fst (key v)) s = Inr (st, lock, s1)"
    and r: "status = st" "s' = (if st \<noteq> AKU_SUCCESS then s1 else insert_value v s1)"
    by (auto simp: add_def split: sum.splits if_splits)
  from check_timestamp_content [OF c] r show ?thesis by (simp add: i)
qed

lemma accounted_content:
  "accounted c \<longleftrightarrow>
     mset (map val (admitted c)) = mset (emitted c) + image_mset val (content (sequencer c))"
  by (simp add: accounted_def content_def add.assoc)

lemma puts_merge: "puts (map Put xs @ [Complete]) = xs"
  by (induction xs) simp_all

lemma step_accounted:
  assumes "accounted c" "step max_id x c = Inr c'"
  shows "accounted c'"
proof (cases x)
  case (OpAdd v)
  with assms(2) obtain status lock s where a: "add max_id v (sequencer c) = Inr (status, lock, s)"
    and c': "c' = c\<lparr>sequencer := s,
        admitted := (if status = AKU_SUCCESS then admitted c @ [v] else admitted c)\<rparr>"
    by (auto split: sum.splits)
  from add_content [OF a] assms(1) show ?thesis
    unfolding c' accounted_content by simp
next
  case OpMerge
  show ?thesis
  proof (cases "progress_flag (sequencer c) \<and> ready (sequencer c) \<noteq> []")
    case True
    with assms(2) OpMerge have c': "c' = c\<lparr>sequencer := (sequencer c)\<lparr>ready := []\<rparr>,
        emitted := emitted c @ kway_merge AKU_CURSOR_DIR_FORWARD (ready (sequencer c))\<rparr>"
      by (simp add: merge_def puts_merge)
    from assms(1) show ?thesis
      unfolding c' accounted_def by (simp add: kway_merge_mset)
  next
    case False
    with assms(2) OpMerge have "sequencer c' = sequencer c \<and> emitted c' = emitted c
        \<and> admitted c' = admitted c"
      by (auto simp: merge_def split: if_splits)
    with assms(1) show ?thesis by (simp add: accounted_def)
  qed
next
  case OpRelease
  with assms show ?thesis by (auto simp: accounted_def release_def)
next
  case OpClose
  with assms show ?thesis
    by (auto simp: accounted_def close_def split: if_splits)
qed

lemma run_ops_accounted:
  "accounted c \<Longrightarrow> run_ops max_id ops c = Inr c' \<Longrightarrow> accounted c'"
proof (induction ops arbitrary: c)
  case Nil
  then show ?case by simp
next
  case (Cons x ops)
  then show ?case by (auto split: sum.splits dest: step_accounted)
qed

lemma new_client_accounted: "new_client window = Inr c \<Longrightarrow> accounted c"
  by (auto simp: new_client_def new_Sequencer_def accounted_def split: if_splits)

text \<open>
  Claim C3. A client makes any sequence of operations on a new sequencer (\<open>add\<close>,
  \<open>merge\<close> with the lock it holds, release of the lock, \<open>close\<close>); then \<open>close\<close>
  returns a lock that owns the progress flag and \<open>merge\<close> is called with it. Then the
  payloads put into the cursors, by the earlier merges and by this one, are the payloads
  of the values whose \<open>add\<close> returned \<^verbatim>\<open>AKU_SUCCESS\<close>, each as often as it was admitted.
  \<open>close\<close> itself has moved every active run to Ready and has left no active run;
  after the merge Ready is empty.
\<close>

theorem close_merge_emits_all:
  assumes "new_client window = Inr c0" and "run_ops max_id ops c0 = Inr c"
    and "close (sequencer c) = Inr (True, s1)" and "merge True s1 = (events, s2)"
  shows "mset (emitted c @ puts events) = mset (map val (admitted c))
       \<and> runs s1 = [] \<and> ready s1 = runs (sequencer c)
       \<and> runs s2 = [] \<and> ready s2 = []"
proof -
  from assms(1,2) have a: "accounted c"
    by (blast intro: run_ops_accounted new_client_accounted)
  from assms(3) have r: "ready (sequencer c) = []" and s1: "runs s1 = []"
    "ready s1 = runs (sequencer c)"
    by (auto simp: close_def split: if_splits)
  have "mset (puts events) = mset (map val (concat (ready s1)))"
    and "runs s2 = runs s1" and "ready s2 = []"
    using assms(4) by (auto simp: merge_def puts_merge kway_merge_mset split: if_splits)
  with a r s1 show ?thesis by (simp add: accounted_def)
qed

lemma flush_ops_run: "run_ops example_max_id flush_ops fresh_client = Inr flush_client"
  by (simp add: flush_ops_def fresh_client_def flush_client_def merge_def release_def
      kway_merge_def kway_eval add_eval)

theorem close_merge_emits_all_witness:
  "new_client 10 = Inr fresh_client
   \<and> run_ops example_max_id flush_ops fresh_client = Inr flush_client
   \<and> close (sequencer flush_client)
       = Inr (True, (sequencer flush_client)\<lparr>progress_flag := True,
            ready := runs (sequencer flush_client), runs := []\<rparr>)
   \<and> merge True ((sequencer flush_client)\<lparr>progress_flag := True,
            ready := runs (sequencer flush_client), runs := []\<rparr>)
       = ([Put 120, Put 180, Put 210, Complete],
          (sequencer flush_client)\<lparr>progress_flag := True, ready := [], runs := []\<rparr>)
   \<and> mset (emitted flush_client @ [120, 180, 210]) = mset (map val (admitted flush_client))"
proof -
  have c: "close (sequencer flush_client)
       = Inr (True, (sequencer flush_client)\<lparr>progress_flag := True,
            ready := runs (sequencer flush_client), runs := []\<rparr>)"
    by (simp add: close_def flush_client_def)
  have m: "merge True ((sequencer flush_client)\<lparr>progress_flag := True,
            ready := runs (sequencer flush_client), runs := []\<rparr>)
       = ([Put 120, Put 180, Put 210, Complete],
          (sequencer flush_client)\<lparr>progress_flag := True, ready := [], runs := []\<rparr>)"
    by (simp add: merge_def flush_client_def kway_merge_def kway_eval)
  from close_merge_emits_all [OF fresh_client_new flush_ops_run c m]
    fresh_client_new flush_ops_run c m
  show ?thesis by simp
qed

section \<open>Search\<close>

lemma fold_filter_run:
  "fold (\<lambda>run results. filter_run run q results) rs acc
     = acc @ map (filter (SearchPredicate q)) rs"
  by (induction rs arbitrary: acc) (simp_all add: filter_run_def)

lemma SearchPredicate_iff:
  "SearchPredicate q v \<longleftrightarrow>
     lowerbound q < fst (key v) \<and> fst (key v) < upperbound q \<and> param_pred q (snd (key v)) = MATCH"
  by (auto simp: SearchPredicate_def)

lemma search_eq:
  assumes "\<not> progress_flag s" "ready s = []"
  shows "search q s
     = Inr (map Put (kway_merge (direction q) (map (filter (SearchPredicate q)) (runs s))))"
  using assms by (cases "direction q") (simp_all add: search_def fold_filter_run)

lemma run_sorted_filter: "run_sorted r \<Longrightarrow> run_sorted (filter P r)"
  by (simp add: run_sorted_def sorted_filter)

text \<open>
  Claim C6, as amended. In a state with no checkpoint in flight (the progress flag is
  free and Ready is empty) and with sorted active runs, \<open>search\<close> puts into the cursor
  the payloads of exactly those values of the active runs whose timestamp is strictly
  between the lower and the upper bound of the query and whose parameter the predicate
  of the query matches, each once, with ascending keys for a forward query and descending
  keys for a backward one. For the query with the bounds 0 and the largest timestamp and
  a predicate that matches everything, these are the values of the active runs whose
  timestamp is neither 0 nor the largest timestamp.
\<close>

theorem search_emits_matching:
  assumes "\<not> progress_flag s" and "ready s = []" and "\<forall>r \<in> set (runs s). run_sorted r"
  shows "search q s
       = Inr (map (\<lambda>item. Put (val (fst item)))
           (kway_items (direction q) (map (filter (SearchPredicate q)) (runs s))))
     \<and> mset (map fst (kway_items (direction q) (map (filter (SearchPredicate q)) (runs s))))
       = mset (filter (\<lambda>v. lowerbound q < fst (key v) \<and> fst (key v) < upperbound q
                \<and> param_pred q (snd (key v)) = MATCH) (concat (runs s)))
     \<and> keys_in_order (direction q)
         (map (\<lambda>item. key (fst item))
           (kway_items (direction q) (map (filter (SearchPredicate q)) (runs s))))"
proof -
  let ?f = "map (filter (SearchPredicate q)) (runs s)"
  have so: "\<forall>r \<in> set ?f. run_sorted r"
    using assms(3) by (auto intro: run_sorted_filter)
  have "concat ?f = filter (SearchPredicate q) (concat (runs s))"
    by (simp add: filter_concat)
  also have "\<dots> = filter (\<lambda>v. lowerbound q < fst (key v) \<and> fst (key v) < upperbound q
                \<and> param_pred q (snd (key v)) = MATCH) (concat (runs s))"
    by (rule filter_cong [OF refl]) (simp only: SearchPredicate_iff)
  finally have c: "mset (concat ?f) = mset (filter (\<lambda>v. lowerbound q < fst (key v)
      \<and> fst (key v) < upperbound q \<and> param_pred q (snd (key v)) = MATCH) (concat (runs s)))"
    by simp
  have "search q s = Inr (map (\<lambda>item. Put (val (fst item))) (kway_items (direction q) ?f))"
    by (simp add: search_eq [OF assms(1,2)] kway_merge_def comp_def)
  moreover have "mset (map fst (kway_items (direction q) ?f)) = mset (concat ?f)"
    by (rule kway_items_mset)
  moreover have "keys_in_order (direction q)
      (map (\<lambda>item. key (fst item)) (kway_items (direction q) ?f))"
    using so by (intro before_keys_in_order kway_items_sorted)
  ultimately show ?thesis by (simp only: c simp_thms)
qed

theorem search_emits_matching_witness:
  "\<not> progress_flag split_state \<and> ready split_state = []
   \<and> runs_sorted split_state
   \<and> search (match_all AKU_CURSOR_DIR_BACKWARD) split_state
       = Inr [Put 180, Put 120, Put 80, Put 50]
   \<and> search \<lparr>lowerbound = 5, upperbound = 18, param_pred = (\<lambda>p. if p = 1 then MATCH else NO_MATCH),
         direction = AKU_CURSOR_DIR_FORWARD\<rparr> split_state
       = Inr [Put 80, Put 120]"
proof -
  have h: "\<not> progress_flag split_state" "ready split_state = []"
    "\<forall>r \<in> set (runs split_state). run_sorted r"
    by (simp_all add: split_state_def run_sorted_def make_value_def)
  have a: "kway_items AKU_CURSOR_DIR_BACKWARD
      (map (filter (SearchPredicate (match_all AKU_CURSOR_DIR_BACKWARD))) (runs split_state))
    = [(make_value 18 1 180, 0), (make_value 12 1 120, 0), (make_value 8 1 80, 0),
       (make_value 5 1 50, 0)]"
    by (simp add: split_state_def match_all_def SearchPredicate_def kway_eval)
  have b: "kway_items AKU_CURSOR_DIR_FORWARD
      (map (filter (SearchPredicate \<lparr>lowerbound = 5, upperbound = 18,
          param_pred = (\<lambda>p. if p = 1 then MATCH else NO_MATCH),
          direction = AKU_CURSOR_DIR_FORWARD\<rparr>)) (runs split_state))
    = [(make_value 8 1 80, 0), (make_value 12 1 120, 0)]"
    by (simp add: split_state_def SearchPredicate_def kway_eval)
  have dm: "direction (match_all AKU_CURSOR_DIR_BACKWARD) = AKU_CURSOR_DIR_BACKWARD"
    by (simp add: match_all_def)
  from search_emits_matching [OF h, of "match_all AKU_CURSOR_DIR_BACKWARD"]
    search_emits_matching [OF h, of "\<lparr>lowerbound = 5, upperbound = 18,
          param_pred = (\<lambda>p. if p = 1 then MATCH else NO_MATCH),
          direction = AKU_CURSOR_DIR_FORWARD\<rparr>"] h
  show ?thesis
    by (simp add: a b dm make_value_def runs_sorted_def)
qed

text \<open>
  The claim as it is written says that this query emits every value of the active runs.
  A value with the timestamp 0 is in an active run of a reachable state and is not
  emitted: the lower bound is exclusive.
\<close>

theorem search_all_counterexample:
  "run_ops example_max_id [OpAdd (make_value 0 1 7)] fresh_client = Inr zero_client
   \<and> concat (runs (sequencer zero_client)) = [make_value 0 1 7]
   \<and> \<not> progress_flag (sequencer zero_client)
   \<and> search (match_all AKU_CURSOR_DIR_FORWARD) (sequencer zero_client) = Inr []"
  by (simp add: fresh_client_def zero_client_def search_def filter_run_def SearchPredicate_def
      match_all_def kway_merge_def kway_eval add_eval)

section \<open>The transitions of the parser\<close>

text \<open>
  Input that arrives later does not change a token whose terminator has arrived: the
  scan of a line, once it has found a carriage return and the byte after it, gives the
  same answer on every extension of the input.
\<close>

lemma scan_line_length:
  assumes "scan_line u = Line body"
  shows "length body + 2 \<le> length u"
proof -
  obtain c d r where dw: "dropWhile (\<lambda>c. c \<noteq> CR) u = c # d # r"
    and body: "body = takeWhile (\<lambda>c. c \<noteq> CR) u"
    using assms by (auto simp: scan_line_def split: list.splits if_splits)
  have "length u = length (takeWhile (\<lambda>c. c \<noteq> CR) u) + length (dropWhile (\<lambda>c. c \<noteq> CR) u)"
    by (metis length_append takeWhile_dropWhile_id)
  then show ?thesis by (simp add: dw body)
qed

lemma scan_line_stable:
  assumes "scan_line u \<noteq> NoLine"
  shows "scan_line (u @ e) = scan_line u"
proof -
  obtain c d r where dw: "dropWhile (\<lambda>c. c \<noteq> CR) u = c # d # r"
    using assms by (auto simp: scan_line_def split: list.splits)
  then have "dropWhile (\<lambda>c. c \<noteq> CR) u \<noteq> []" by simp
  then obtain x where x: "x \<in> set u" "\<not> x \<noteq> CR"
    by (auto simp: dropWhile_eq_Nil_conv)
  have "dropWhile (\<lambda>c. c \<noteq> CR) (u @ e) = c # d # (r @ e)"
    using dropWhile_append1 [of x u "\<lambda>c. c \<noteq> CR" e] x dw by simp
  moreover have "takeWhile (\<lambda>c. c \<noteq> CR) (u @ e) = takeWhile (\<lambda>c. c \<noteq> CR) u"
    using takeWhile_append1 [of x u "\<lambda>c. c \<noteq> CR" e] x by simp
  ultimately show ?thesis by (simp add: scan_line_def dw)
qed

lemma read_line_stable:
  assumes "read_line u f \<noteq> Wait"
  shows "read_line (u @ e) f = read_line u f"
proof -
  have "scan_line u \<noteq> NoLine" using assms by (auto simp: read_line_def)
  then show ?thesis by (simp add: read_line_def scan_line_stable)
qed

lemma read_line_consumes:
  assumes "read_line u f = Step m k"
  shows "0 < k \<and> k \<le> length u"
  using assms scan_line_length [of u]
  by (auto simp: read_line_def split: line.splits option.splits)
text \<open>
  The terminator of a bulk string; the copy of its body is treated with the run of the
  machine below, since the number of bytes that one transition copies depends on the
  bytes at hand.
\<close>

lemma bulk_body_fail_stable:
  assumes "bulk_body m n u = Fail"
  shows "bulk_body m n (u @ e) = Fail"
  using assms by (cases u; cases "tl u"; cases e) (auto simp: bulk_body_def split: if_splits)

lemma bulk_body_consumes:
  assumes "bulk_body m n u = Step m1 k"
  shows "0 < k \<and> k \<le> length u"
  using assms by (cases u; cases "tl u") (auto simp: bulk_body_def split: if_splits)

lemma bulk_body_terminator_stable:
  assumes "bulk_body m n u = Step m1 k" and "\<not> length (scratch m) < n"
  shows "bulk_body m n (u @ e) = Step m1 k"
  using assms by (cases u; cases "tl u") (auto simp: bulk_body_def split: if_splits)
text \<open>
  A transition that fails, fails on every extension of the input; a transition that
  consumes, consumes at least one byte and no more than there are; and, unless it copies
  the body of a bulk string, it is the same transition on every extension of the input.
\<close>

lemma machine_step_fail_stable:
  assumes "machine_step m u = Fail"
  shows "machine_step m (u @ e) = Fail"
proof (cases "state m")
  case ExpectType
  then show ?thesis using assms by (cases u) (auto simp: machine_step_def split: if_splits)
next
  case ReadInt
  then show ?thesis using assms read_line_stable [of u "int_token m" e]
    by (simp add: machine_step_def)
next
  case ReadFloat
  then show ?thesis using assms read_line_stable [of u "float_token m" e]
    by (simp add: machine_step_def)
next
  case ReadBulkLen
  then show ?thesis using assms read_line_stable [of u "bulk_len_token m" e]
    by (simp add: machine_step_def)
next
  case (ReadBulkBody n)
  then show ?thesis using assms bulk_body_fail_stable [of m n u e]
    by (simp add: machine_step_def)
next
  case ParseError
  then show ?thesis using assms by (simp add: machine_step_def)
qed

lemma machine_step_consumes:
  assumes "machine_step m u = Step m1 k"
  shows "0 < k \<and> k \<le> length u"
proof (cases "state m")
  case ExpectType
  then show ?thesis using assms by (cases u) (auto simp: machine_step_def split: if_splits)
next
  case ReadInt
  then show ?thesis using assms read_line_consumes [of u "int_token m" m1 k]
    by (simp add: machine_step_def)
next
  case ReadFloat
  then show ?thesis using assms read_line_consumes [of u "float_token m" m1 k]
    by (simp add: machine_step_def)
next
  case ReadBulkLen
  then show ?thesis using assms read_line_consumes [of u "bulk_len_token m" m1 k]
    by (simp add: machine_step_def)
next
  case (ReadBulkBody n)
  then show ?thesis using assms bulk_body_consumes [of m n u m1 k]
    by (simp add: machine_step_def)
next
  case ParseError
  then show ?thesis using assms by (simp add: machine_step_def)
qed

lemma machine_step_stable:
  assumes "machine_step m u = Step m1 k" and "\<not> copying m"
  shows "machine_step m (u @ e) = Step m1 k"
proof (cases "state m")
  case ExpectType
  then show ?thesis using assms by (cases u) (auto simp: machine_step_def split: if_splits)
next
  case ReadInt
  then show ?thesis using assms read_line_stable [of u "int_token m" e]
    by (simp add: machine_step_def)
next
  case ReadFloat
  then show ?thesis using assms read_line_stable [of u "float_token m" e]
    by (simp add: machine_step_def)
next
  case ReadBulkLen
  then show ?thesis using assms read_line_stable [of u "bulk_len_token m" e]
    by (simp add: machine_step_def)
next
  case (ReadBulkBody n)
  then show ?thesis using assms bulk_body_terminator_stable [of m n u m1 k e]
    by (simp add: machine_step_def copying_def)
next
  case ParseError
  then show ?thesis using assms by (simp add: machine_step_def)
qed
section \<open>The run of the machine\<close>

lemma machine_run_wait:
  "machine_step m u = Wait \<Longrightarrow> machine_run m u = (m, u)"
  by (subst machine_run.simps) simp

lemma machine_run_fail:
  "machine_step m u = Fail \<Longrightarrow> machine_run m u = (m\<lparr>state := ParseError\<rparr>, u)"
  by (subst machine_run.simps) simp

lemma machine_run_step:
  assumes "machine_step m u = Step m1 k"
  shows "machine_run m u = machine_run m1 (drop k u)"
  using machine_step_consumes [OF assms] assms
  by (subst machine_run.simps) simp

lemma machine_run_copy:
  assumes "state m = ReadBulkBody n" and "length (scratch m) < n" and "u \<noteq> []"
  shows "machine_run m u
       = machine_run (m\<lparr>scratch := scratch m @ take (n - length (scratch m)) u\<rparr>)
           (drop (n - length (scratch m)) u)"
proof -
  have "machine_step m u
      = Step (m\<lparr>scratch := scratch m @ take (n - length (scratch m)) u\<rparr>)
          (min (n - length (scratch m)) (length u))"
    using assms by (simp add: machine_step_def bulk_body_def)
  then have "machine_run m u
      = machine_run (m\<lparr>scratch := scratch m @ take (n - length (scratch m)) u\<rparr>)
          (drop (min (n - length (scratch m)) (length u)) u)"
    by (rule machine_run_step)
  moreover have "drop (min (n - length (scratch m)) (length u)) u = drop (n - length (scratch m)) u"
    by (simp add: min_def)
  ultimately show ?thesis by simp
qed

lemma machine_run_copy_extend:
  assumes st: "state m = ReadBulkBody n" and lt: "length (scratch m) < n" and ne: "u \<noteq> []"
  shows "machine_run m (u @ e)
       = machine_run (m\<lparr>scratch := scratch m @ take (n - length (scratch m)) u\<rparr>)
           (drop (n - length (scratch m)) u @ e)"
proof (cases "n - length (scratch m) \<le> length u")
  case True
  then show ?thesis using machine_run_copy [OF st lt, of "u @ e"] ne by simp
next
  case False
  let ?m1 = "m\<lparr>scratch := scratch m @ u\<rparr>"
  have lhs: "machine_run m (u @ e)
      = machine_run (m\<lparr>scratch := scratch m @ u @ take (n - length (scratch m) - length u) e\<rparr>)
          (drop (n - length (scratch m) - length u) e)"
    using machine_run_copy [OF st lt, of "u @ e"] ne False by simp
  have rhs: "machine_run (m\<lparr>scratch := scratch m @ take (n - length (scratch m)) u\<rparr>)
          (drop (n - length (scratch m)) u @ e) = machine_run ?m1 e"
    using False by simp
  show ?thesis
  proof (cases "e = []")
    case True
    then show ?thesis using False machine_run_copy [OF st lt ne] by simp
  next
    case ne2: False
    have "machine_run ?m1 e
        = machine_run (?m1\<lparr>scratch := scratch ?m1 @ take (n - length (scratch ?m1)) e\<rparr>)
            (drop (n - length (scratch ?m1)) e)"
      using False st lt ne2 by (intro machine_run_copy) auto
    then show ?thesis using lhs rhs by simp
  qed
qed

lemma machine_run_step_extend:
  assumes "machine_step m u = Step m1 k"
  shows "machine_run m (u @ e) = machine_run m1 (drop k u @ e)"
proof (cases "copying m")
  case False
  have "machine_run m (u @ e) = machine_run m1 (drop k (u @ e))"
    using machine_step_stable [OF assms False] by (rule machine_run_step)
  then show ?thesis using machine_step_consumes [OF assms] by simp
next
  case True
  then obtain n where st: "state m = ReadBulkBody n" and lt: "length (scratch m) < n"
    by (auto simp: copying_def split: parser_state.splits)
  have ne: "u \<noteq> []" using machine_step_consumes [OF assms] by auto
  have "m1 = m\<lparr>scratch := scratch m @ take (n - length (scratch m)) u\<rparr>"
    and "k = min (n - length (scratch m)) (length u)"
    using assms st lt ne by (auto simp: machine_step_def bulk_body_def)
  moreover have "drop (min (n - length (scratch m)) (length u)) u = drop (n - length (scratch m)) u"
    by (simp add: min_def)
  ultimately show ?thesis using machine_run_copy_extend [OF st lt ne, of e] by simp
qed
text \<open>
  Running the machine on an input and then on what is left of it followed by more bytes
  is running it on the whole. The machine stops on a proper suffix of its input, or on
  its input.
\<close>

lemma machine_run_extend:
  "machine_run m (u @ e) = (case machine_run m u of (m1, u1) \<Rightarrow> machine_run m1 (u1 @ e))"
proof (induction m u rule: machine_run.induct)
  case (1 m u)
  show ?case
  proof (cases "machine_step m u")
    case Wait
    then show ?thesis by (simp add: machine_run_wait)
  next
    case Fail
    have "machine_step (m\<lparr>state := ParseError\<rparr>) (u @ e) = Wait"
      by (simp add: machine_step_def)
    then show ?thesis
      using Fail machine_step_fail_stable [OF Fail, of e]
      by (simp add: machine_run_fail machine_run_wait)
  next
    case (Step m1 k)
    have k: "0 < k \<and> k \<le> length u" using machine_step_consumes [OF Step] .
    have "machine_run m (u @ e) = machine_run m1 (drop k u @ e)"
      using Step by (rule machine_run_step_extend)
    also have "\<dots> = (case machine_run m1 (drop k u) of (m2, u2) \<Rightarrow> machine_run m2 (u2 @ e))"
      using "1.IH" [OF Step] k by simp
    also have "machine_run m1 (drop k u) = machine_run m u"
      using Step by (simp add: machine_run_step)
    finally show ?thesis .
  qed
qed

lemma machine_run_suffix:
  "machine_run m u = (m1, r) \<Longrightarrow> length r \<le> length u \<and> r = drop (length u - length r) u"
proof (induction m u arbitrary: m1 r rule: machine_run.induct)
  case (1 m u)
  show ?case
  proof (cases "machine_step m u")
    case Wait
    then show ?thesis using "1.prems" by (simp add: machine_run_wait)
  next
    case Fail
    then show ?thesis using "1.prems" by (simp add: machine_run_fail)
  next
    case (Step m2 k)
    have k: "0 < k \<and> k \<le> length u" using machine_step_consumes [OF Step] .
    have run: "machine_run m2 (drop k u) = (m1, r)"
      using "1.prems" Step by (simp add: machine_run_step)
    have ih: "length r \<le> length (drop k u) \<and> r = drop (length (drop k u) - length r) (drop k u)"
      using "1.IH" [OF Step _ run] k by simp
    then have le: "length r \<le> length u - k" by simp
    then have "length r \<le> length u" by arith
    moreover have "r = drop (length u - length r) u"
    proof -
      have "length u - k - length r + k = length u - length r"
        using le k by arith
      moreover have "r = drop (length u - k - length r + k) u"
        using ih by (simp only: drop_drop length_drop)
      ultimately show ?thesis by simp
    qed
    ultimately show ?thesis by simp
  qed
qed
section \<open>The buffers that the parser holds\<close>

text \<open>
  Releasing keeps the bytes from the cursor on; what is released is a prefix of the PDUs
  held, and the cursor ends inside the oldest PDU that stays.
\<close>

lemma release_consumed_keeps:
  "c \<le> length (logical_buffer bs) \<Longrightarrow> release_consumed bs c = (bs1, c1)
   \<Longrightarrow> drop c1 (logical_buffer bs1) = drop c (logical_buffer bs)
       \<and> c1 \<le> length (logical_buffer bs1)"
proof (induction bs c arbitrary: bs1 c1 rule: release_consumed.induct)
  case (1 c)
  then show ?case by (simp add: logical_buffer_def)
next
  case (2 b bs c)
  show ?case
  proof (cases "length (pdu_bytes b) \<le> c")
    case True
    then have "release_consumed bs (c - length (pdu_bytes b)) = (bs1, c1)"
      using "2.prems" by simp
    moreover have "c - length (pdu_bytes b) \<le> length (logical_buffer bs)"
      using "2.prems" True by (simp add: logical_buffer_def)
    ultimately have "drop c1 (logical_buffer bs1)
          = drop (c - length (pdu_bytes b)) (logical_buffer bs)
        \<and> c1 \<le> length (logical_buffer bs1)"
      using "2.IH" [OF True] by blast
    then show ?thesis using True by (simp add: logical_buffer_def)
  next
    case False
    then show ?thesis using "2.prems" by auto
  qed
qed

lemma release_consumed_held:
  "release_consumed bs c = (bs1, c1)
   \<Longrightarrow> (bs1 = [] \<and> c1 = 0) \<or> (bs1 \<noteq> [] \<and> c1 < length (pdu_bytes (hd bs1)))"
  by (induction bs c arbitrary: bs1 c1 rule: release_consumed.induct)
     (auto split: if_splits)

lemma release_consumed_suffix:
  "release_consumed bs c = (bs1, c1) \<Longrightarrow> \<exists>released. bs = released @ bs1"
proof (induction bs c arbitrary: bs1 c1 rule: release_consumed.induct)
  case (1 c)
  then show ?case by simp
next
  case (2 b bs c)
  show ?case
  proof (cases "length (pdu_bytes b) \<le> c")
    case True
    then obtain released where "bs = released @ bs1"
      using "2.IH" [OF True] "2.prems" by auto
    then have "b # bs = (b # released) @ bs1" by simp
    then show ?thesis by blast
  next
    case False
    then have "b # bs = [] @ bs1" using "2.prems" by simp
    then show ?thesis by blast
  qed
qed
text \<open>
  \<open>parse_next\<close> runs the machine on the unread bytes followed by those of the new PDU,
  and keeps the cursor within the logical buffer.
\<close>

lemma parse_next_run:
  assumes "parser_ok p"
  shows "(machine (parse_next p pdu), unread (parse_next p pdu))
           = machine_run (machine p) (unread p @ pdu_bytes pdu)
       \<and> parser_ok (parse_next p pdu)"
proof -
  let ?held = "buffers p @ [pdu]"
  let ?input = "drop (cursor p) (logical_buffer ?held)"
  have input: "?input = unread p @ pdu_bytes pdu"
    using assms by (simp add: unread_def parser_ok_def logical_buffer_def)
  obtain m r where run: "machine_run (machine p) ?input = (m, r)"
    by (cases "machine_run (machine p) ?input")
  have r: "length r \<le> length ?input \<and> r = drop (length ?input - length r) ?input"
    using machine_run_suffix [OF run] .
  let ?c = "cursor p + (length ?input - length r)"
  obtain bs c where rel: "release_consumed ?held ?c = (bs, c)"
    by (cases "release_consumed ?held ?c")
  have le: "?c \<le> length (logical_buffer ?held)"
    using r assms by (simp add: parser_ok_def logical_buffer_def)
  have keep: "drop c (logical_buffer bs) = drop ?c (logical_buffer ?held)
      \<and> c \<le> length (logical_buffer bs)"
    using release_consumed_keeps [OF le rel] .
  have "drop ?c (logical_buffer ?held) = drop (length ?input - length r) ?input"
    by (simp add: add.commute)
  then have rest: "drop c (logical_buffer bs) = r" using keep r by simp
  have p': "parse_next p pdu = \<lparr>machine = m, buffers = bs, cursor = c\<rparr>"
    using run rel by (simp add: parse_next_def Let_def)
  show ?thesis using run rest keep input by (simp add: p' unread_def parser_ok_def)
qed
lemma parser_ok_start: "parser_ok start"
  by (simp add: parser_ok_def start_def logical_buffer_def)

lemma parser_ok_parse_next: "parser_ok p \<Longrightarrow> parser_ok (parse_next p pdu)"
  using parse_next_run [of p pdu] by simp

lemma parse_next_holds:
  assumes "parser_ok p"
  shows "(\<exists>released. buffers p @ [pdu] = released @ buffers (parse_next p pdu))
       \<and> (buffers (parse_next p pdu) = [] \<and> cursor (parse_next p pdu) = 0
          \<or> buffers (parse_next p pdu) \<noteq> []
            \<and> cursor (parse_next p pdu) < length (pdu_bytes (hd (buffers (parse_next p pdu)))))"
proof -
  let ?held = "buffers p @ [pdu]"
  let ?input = "drop (cursor p) (logical_buffer ?held)"
  obtain m r where run: "machine_run (machine p) ?input = (m, r)"
    by (cases "machine_run (machine p) ?input")
  let ?c = "cursor p + (length ?input - length r)"
  obtain bs c where rel: "release_consumed ?held ?c = (bs, c)"
    by (cases "release_consumed ?held ?c")
  have p': "parse_next p pdu = \<lparr>machine = m, buffers = bs, cursor = c\<rparr>"
    using run rel by (simp add: parse_next_def Let_def)
  show ?thesis
    using release_consumed_suffix [OF rel] release_consumed_held [OF rel] by (simp add: p')
qed

section \<open>The parser and the boundaries of its input\<close>

lemma parse_next_split_run:
  assumes "parser_ok p" and "pdu_bytes c = pdu_bytes a @ pdu_bytes b"
  shows "(machine (parse_next (parse_next p a) b), unread (parse_next (parse_next p a) b))
       = (machine (parse_next p c), unread (parse_next p c))"
proof -
  have a: "(machine (parse_next p a), unread (parse_next p a))
      = machine_run (machine p) (unread p @ pdu_bytes a)"
    and ok: "parser_ok (parse_next p a)"
    using parse_next_run [OF assms(1), of a] by simp_all
  have "(machine (parse_next (parse_next p a) b), unread (parse_next (parse_next p a) b))
      = machine_run (machine (parse_next p a)) (unread (parse_next p a) @ pdu_bytes b)"
    using parse_next_run [OF ok, of b] by simp
  also have "\<dots> = machine_run (machine p) ((unread p @ pdu_bytes a) @ pdu_bytes b)"
    by (simp only: machine_run_extend [of "machine p" "unread p @ pdu_bytes a"] flip: a) simp
  also have "\<dots> = (machine (parse_next p c), unread (parse_next p c))"
    using parse_next_run [OF assms(1), of c] assms(2) by simp
  finally show ?thesis .
qed
text \<open>
  The same for any number of PDUs: a token may span any number of them.
\<close>

lemma pdu_bytes_make_pdu: "pdu_bytes (make_pdu bytes) = bytes"
  by (simp add: pdu_bytes_def make_pdu_def)

lemma parse_next_bytes:
  assumes "parser_ok p" and "pdu_bytes c = pdu_bytes a"
  shows "(machine (parse_next p a), unread (parse_next p a))
       = (machine (parse_next p c), unread (parse_next p c))"
  using parse_next_run [OF assms(1), of a] parse_next_run [OF assms(1), of c] assms(2)
  by simp

lemma parse_next_pdus:
  assumes "parser_ok p" and "pdus \<noteq> []" and "pdu_bytes c = concat (map pdu_bytes pdus)"
  shows "(machine (foldl parse_next p pdus), unread (foldl parse_next p pdus))
       = (machine (parse_next p c), unread (parse_next p c))"
  using assms
proof (induction pdus arbitrary: p c)
  case Nil
  then show ?case by simp
next
  case (Cons a rest)
  show ?case
  proof (cases "rest = []")
    case True
    then show ?thesis
      using parse_next_bytes [OF Cons.prems(1), of c a] Cons.prems(3) by simp
  next
    case False
    let ?c = "make_pdu (concat (map pdu_bytes rest))"
    have ok: "parser_ok (parse_next p a)"
      using Cons.prems(1) by (rule parser_ok_parse_next)
    have "(machine (foldl parse_next (parse_next p a) rest),
           unread (foldl parse_next (parse_next p a) rest))
        = (machine (parse_next (parse_next p a) ?c), unread (parse_next (parse_next p a) ?c))"
      using Cons.IH [OF ok False, of ?c] by (simp add: pdu_bytes_make_pdu)
    also have "\<dots> = (machine (parse_next p c), unread (parse_next p c))"
      using parse_next_split_run [OF Cons.prems(1), of c a ?c] Cons.prems(3)
      by (simp add: pdu_bytes_make_pdu)
    finally show ?thesis by simp
  qed
qed

text \<open>
  Claim C5. For every parser whose cursor lies within the bytes that it holds (the
  parser after \<open>start\<close> is one, and \<open>parse_next\<close> keeps it so), and for every PDU \<open>c\<close>
  and every split of the bytes of \<open>c\<close> into the bytes of two PDUs \<open>a\<close> and \<open>b\<close>,
  \<open>parse_next\<close> of \<open>a\<close> followed by \<open>parse_next\<close> of \<open>b\<close> leaves the consumer with the
  sequence of callbacks (the same \<^verbatim>\<open>write_double\<close> and \<^verbatim>\<open>add_bulk_string\<close> with the
  same arguments in the same order) that \<open>parse_next\<close> of \<open>c\<close> gives, and the machine in
  the same state, with the same tokens, the same scratch buffer and the same bytes left
  to read: the boundary between two PDUs may fall on any byte of the stream, inside a
  numeric token, inside its terminator or inside the body of a bulk string.
\<close>

theorem parse_next_split:
  assumes "parser_ok p" and "pdu_bytes c = pdu_bytes a @ pdu_bytes b"
  shows "consumer (machine (parse_next (parse_next p a) b)) = consumer (machine (parse_next p c))
       \<and> machine (parse_next (parse_next p a) b) = machine (parse_next p c)
       \<and> unread (parse_next (parse_next p a) b) = unread (parse_next p c)"
  using parse_next_split_run [OF assms] by simp

text \<open>
  The two tests of the parser. After the first PDU of \<^verbatim>\<open>Test_protocol_parse_2\<close> the
  second record waits in the buffer that the parser holds, its float cut before its
  terminator; the bulk string is cut in the middle of its body.
\<close>

lemmas parser_eval =
  Let_def parse_next_def machine_run.simps machine_step_def read_line_def scan_line_def
  int_token_def float_token_def bulk_len_token_def bulk_body_def
  is_digits_def is_digit_def is_float_def is_decimal_def is_exponent_mark_def digits_value_def
  logical_buffer_def pdu_bytes_def unread_def start_def make_pdu_def CR_def LF_def CRLF_def
  message1_def message2_def bulk1_def bulk2_def
  pdu1_def pdu2_def pdu2_head_def pdu2_tail_def joined_pdu_def bulk_pdu1_def bulk_pdu2_def
  bulk_joined_def bad_message_def bad_float_def bad_float_head_def bad_float_tail_def
  bad_type_def bad_terminator_def

lemma message1_parsed:
  "parse_next start pdu1
     = \<lparr>machine = \<lparr>state = ReadFloat, tokens = [Integer 6, Integer 7], scratch = [],
          consumer = [write_double 1 2 ''34.5'']\<rparr>,
        buffers = [pdu1], cursor = 24\<rparr>"
  by (simp add: parser_eval)

lemma messages_parsed:
  "parse_next (parse_next start pdu1) pdu2
     = \<lparr>machine = \<lparr>state = ExpectType, tokens = [], scratch = [],
          consumer = [write_double 1 2 ''34.5'', write_double 6 7 ''8.9'',
            write_double 10 11 ''12.13'', write_double 14 15 ''16.7'']\<rparr>,
        buffers = [], cursor = 0\<rparr>"
  by (simp add: parser_eval)

lemma message_parts_parsed:
  "consumer (machine (parse_next (parse_next start pdu1) pdu2_head))
     = [write_double 1 2 ''34.5'', write_double 6 7 ''8.9'']"
  "unread (parse_next (parse_next start pdu1) pdu2_head) = ''12''"
  "consumer (machine (parse_next (parse_next (parse_next start pdu1) pdu2_head) pdu2_tail))
     = [write_double 1 2 ''34.5'', write_double 6 7 ''8.9'', write_double 10 11 ''12.13'',
        write_double 14 15 ''16.7'']"
  by (simp_all add: parser_eval)

lemma bulk_parsed:
  "parse_next start bulk_pdu1
     = \<lparr>machine = \<lparr>state = ReadBulkBody 12, tokens = [], scratch = ''123456'',
          consumer = []\<rparr>,
        buffers = [], cursor = 0\<rparr>"
  "parse_next (parse_next start bulk_pdu1) bulk_pdu2
     = \<lparr>machine = \<lparr>state = ExpectType, tokens = [], scratch = [],
          consumer = [add_bulk_string ''123456789ABC'' 12]\<rparr>,
        buffers = [], cursor = 0\<rparr>"
  by (simp_all add: parser_eval)

lemma pdus_split:
  "pdu_bytes joined_pdu = pdu_bytes pdu1 @ pdu_bytes pdu2"
  "pdu_bytes pdu2 = pdu_bytes pdu2_head @ pdu_bytes pdu2_tail"
  "pdu_bytes bulk_joined = pdu_bytes bulk_pdu1 @ pdu_bytes bulk_pdu2"
  "pdu_bytes bad_float = pdu_bytes bad_float_head @ pdu_bytes bad_float_tail"
  by (simp_all add: parser_eval)

lemma tests_closed:
  shows "\<not> parser_close (parse_next start pdu1)"
    and "parser_close (parse_next (parse_next start pdu1) pdu2)"
    and "\<not> parser_close (parse_next start bulk_pdu1)"
    and "parser_close (parse_next (parse_next start bulk_pdu1) bulk_pdu2)"
proof -
  show "\<not> parser_close (parse_next start pdu1)"
    by (simp add: parser_close_def message1_parsed)
  show "parser_close (parse_next (parse_next start pdu1) pdu2)"
    by (simp add: parser_close_def messages_parsed)
  show "\<not> parser_close (parse_next start bulk_pdu1)"
    by (simp add: parser_close_def bulk_parsed(1))
  show "parser_close (parse_next (parse_next start bulk_pdu1) bulk_pdu2)"
    by (simp add: parser_close_def bulk_parsed(2))
qed

text \<open>
  What the parser refuses: the float \<^verbatim>\<open>e-.\<close>, which is made of characters that occur
  in numbers, the type \<^verbatim>\<open>#\<close>, and a carriage return that a colon follows. No callback
  is made, and the refusal is final.
\<close>

lemma parse_errors:
  "machine (parse_next start bad_float)
     = \<lparr>state = ParseError, tokens = [Integer 1, Integer 2], scratch = [], consumer = []\<rparr>"
  "machine (parse_next start bad_float_head)
     = \<lparr>state = ReadFloat, tokens = [Integer 1, Integer 2], scratch = [], consumer = []\<rparr>"
  "machine (parse_next (parse_next start bad_float_head) bad_float_tail)
     = \<lparr>state = ParseError, tokens = [Integer 1, Integer 2], scratch = [], consumer = []\<rparr>"
  "machine (parse_next start bad_type)
     = \<lparr>state = ParseError, tokens = [], scratch = [], consumer = []\<rparr>"
  "machine (parse_next start bad_terminator)
     = \<lparr>state = ParseError, tokens = [], scratch = [], consumer = []\<rparr>"
  "machine (parse_next (parse_next start bad_type) pdu1) = machine (parse_next start bad_type)"
  by (simp_all add: parser_eval)

lemma is_float_examples:
  "is_float ''34.5'' \<and> is_float ''-3'' \<and> is_float ''.5'' \<and> is_float ''5.''
   \<and> is_float ''1e5'' \<and> is_float ''-1.5E-3''"
  "\<not> is_float ''e-.'' \<and> \<not> is_float ''.'' \<and> \<not> is_float ''1e'' \<and> \<not> is_float ''+''
   \<and> \<not> is_float [] \<and> \<not> is_float ''1.2.3'' \<and> \<not> is_float ''12a''"
  by (simp_all add: is_float_def is_decimal_def is_digits_def is_digit_def
      is_exponent_mark_def)

theorem parse_next_split_witness:
  "parser_ok start
   \<and> pdu_bytes joined_pdu = pdu_bytes pdu1 @ pdu_bytes pdu2
   \<and> consumer (machine (parse_next start pdu1)) = [write_double 1 2 ''34.5'']
   \<and> consumer (machine (parse_next start joined_pdu))
       = [write_double 1 2 ''34.5'', write_double 6 7 ''8.9'', write_double 10 11 ''12.13'',
          write_double 14 15 ''16.7'']
   \<and> unread (parse_next start joined_pdu) = []
   \<and> parser_ok (parse_next start pdu1)
   \<and> pdu_bytes pdu2 = pdu_bytes pdu2_head @ pdu_bytes pdu2_tail
   \<and> machine (parse_next (parse_next (parse_next start pdu1) pdu2_head) pdu2_tail)
       = machine (parse_next (parse_next start pdu1) pdu2)
   \<and> pdu_bytes bulk_joined = pdu_bytes bulk_pdu1 @ pdu_bytes bulk_pdu2
   \<and> consumer (machine (parse_next start bulk_pdu1)) = []
   \<and> consumer (machine (parse_next start bulk_joined)) = [add_bulk_string ''123456789ABC'' 12]
   \<and> pdu_bytes bad_float = pdu_bytes bad_float_head @ pdu_bytes bad_float_tail
   \<and> machine (parse_next start bad_float)
       = \<lparr>state = ParseError, tokens = [Integer 1, Integer 2], scratch = [], consumer = []\<rparr>"
proof -
  have ok1: "parser_ok (parse_next start pdu1)"
    using parser_ok_start by (rule parser_ok_parse_next)
  note whole = parse_next_split [OF parser_ok_start pdus_split(1)]
  note parts = parse_next_split [OF ok1 pdus_split(2)]
  note bulk = parse_next_split [OF parser_ok_start pdus_split(3)]
  note bad = parse_next_split [OF parser_ok_start pdus_split(4)]
  have "consumer (machine (parse_next start pdu1)) = [write_double 1 2 ''34.5'']"
    by (simp add: message1_parsed)
  moreover have "consumer (machine (parse_next start joined_pdu))
       = [write_double 1 2 ''34.5'', write_double 6 7 ''8.9'', write_double 10 11 ''12.13'',
          write_double 14 15 ''16.7'']"
    using whole by (simp add: messages_parsed)
  moreover have "unread (parse_next start joined_pdu) = []"
    using whole by (simp add: messages_parsed unread_def logical_buffer_def)
  moreover have "machine (parse_next (parse_next (parse_next start pdu1) pdu2_head) pdu2_tail)
       = machine (parse_next (parse_next start pdu1) pdu2)"
    using parts by simp
  moreover have "consumer (machine (parse_next start bulk_pdu1)) = []"
    by (simp add: bulk_parsed(1))
  moreover have "consumer (machine (parse_next start bulk_joined))
       = [add_bulk_string ''123456789ABC'' 12]"
    using bulk by (simp add: bulk_parsed(2))
  moreover have "machine (parse_next start bad_float)
       = \<lparr>state = ParseError, tokens = [Integer 1, Integer 2], scratch = [], consumer = []\<rparr>"
    using bad by (simp add: parse_errors(3))
  ultimately show ?thesis
    using parser_ok_start ok1 pdus_split by simp
qed

end
